theory Spec2Isabelle
  imports
    Main
    "HOL-Library.Word"
    "HOL-Library.AList"
    "HOL-Library.Multiset"
    "HOL-Library.Char_ord"
    "HOL-Library.List_Lexorder"
begin

section \<open>Data model\<close>

text \<open>
  A Go \<^verbatim>\<open>[]byte\<close> is a list of 8-bit words, a Go \<^verbatim>\<open>string\<close> is a list of
  \<^typ>\<open>char\<close> (one per byte).  A Go \<^verbatim>\<open>map[K]V\<close> is an association list with pairwise
  distinct keys: the order of the list stands for the order in which \<^verbatim>\<open>range\<close> happens to
  visit the entries, which Go leaves unspecified.  Assigning \<^verbatim>\<open>m[k] = v\<close> is
  \<^const>\<open>AList.update\<close>; reading \<^verbatim>\<open>m[k]\<close> yields the zero value when the key is missing.
\<close>

type_synonym byte = "8 word"

type_synonym ('k, 'v) gomap = "('k \<times> 'v) list"

definition index_bytes :: "(string, byte list) gomap \<Rightarrow> string \<Rightarrow> byte list" where
  "index_bytes m k = (case map_of m k of None \<Rightarrow> [] | Some v \<Rightarrow> v)"


text \<open>
  Go's \<^verbatim>\<open>int\<close> is taken at its 64-bit width.  Arithmetic on it is integer arithmetic
  followed by \<^term>\<open>wrap64\<close>.
\<close>

definition wrap64 :: "int \<Rightarrow> int" where
  "wrap64 x = (x + 2 ^ 63) mod 2 ^ 64 - 2 ^ 63"

definition MaxInt64 :: int where
  "MaxInt64 = 2 ^ 63 - 1"

definition MinInt64 :: int where
  "MinInt64 = - (2 ^ 63)"

section \<open>Standard-library formatting and parsing\<close>

text \<open>
  \<^verbatim>\<open>fmt.Sprintf("%d", n)\<close> and \<^verbatim>\<open>strconv.Itoa(n)\<close> print an \<^verbatim>\<open>int\<close> in decimal, with a
  leading minus sign for negative values and no leading zeros.  As in the library, a digit
  is read from a table of digit characters.
\<close>

definition digit_char :: "nat \<Rightarrow> char" where
  "digit_char d = ''0123456789'' ! d"

function FormatUint :: "nat \<Rightarrow> string" where
  "FormatUint n = (if n < 10 then [digit_char n] else FormatUint (n div 10) @ [digit_char (n mod 10)])"
  by pat_completeness auto
termination
  by (relation "measure id") auto

declare FormatUint.simps [simp del]

definition Itoa :: "int \<Rightarrow> string" where
  "Itoa n = (if n < 0 then CHR ''-'' # FormatUint (nat (- n)) else FormatUint (nat n))"

text \<open>
  \<^verbatim>\<open>strconv.Atoi(s)\<close> is \<^verbatim>\<open>strconv.ParseInt(s, 10, 0)\<close> (its fast path for short inputs
  computes the same result).  \<^verbatim>\<open>ParseUint\<close> walks the digits left to right; it stops with
  a syntax error and value 0 at the first byte that is not a decimal digit, and with a range
  error and the largest value as soon as the accumulated number leaves 64 bits.
  \<^verbatim>\<open>ParseInt\<close> strips one sign, keeps a range error, and clamps to the nearest
  \<^verbatim>\<open>int64\<close> on a range error.
\<close>

datatype num_error = ErrSyntax | ErrRange

definition is_digit :: "char \<Rightarrow> bool" where
  "is_digit c = (48 \<le> (of_char c :: nat) \<and> (of_char c :: nat) \<le> 57)"

definition maxUint64 :: nat where
  "maxUint64 = 2 ^ 64 - 1"

fun ParseUint_loop :: "string \<Rightarrow> nat \<Rightarrow> nat \<times> num_error option" where
  "ParseUint_loop [] n = (n, None)"
| "ParseUint_loop (c # cs) n =
    (if \<not> is_digit c then (0, Some ErrSyntax)
     else if n \<ge> maxUint64 div 10 + 1 then (maxUint64, Some ErrRange)
     else if n * 10 + (of_char c - 48) > maxUint64 then (maxUint64, Some ErrRange)
     else ParseUint_loop cs (n * 10 + (of_char c - 48)))"

definition ParseUint :: "string \<Rightarrow> nat \<times> num_error option" where
  "ParseUint s = (if s = [] then (0, Some ErrSyntax) else ParseUint_loop s 0)"

definition ParseInt :: "string \<Rightarrow> int \<times> num_error option" where
  "ParseInt s =
    (if s = [] then (0, Some ErrSyntax)
     else
       (let neg = (hd s = CHR ''-'');
            s' = (if hd s = CHR ''+'' \<or> hd s = CHR ''-'' then tl s else s)
        in case ParseUint s' of
             (un, Some ErrSyntax) \<Rightarrow> (0, Some ErrSyntax)
           | (un, _) \<Rightarrow>
               if \<not> neg \<and> un \<ge> 2 ^ 63 then (MaxInt64, Some ErrRange)
               else if neg \<and> un > 2 ^ 63 then (MinInt64, Some ErrRange)
               else (if neg then - int un else int un, None)))"

definition Atoi :: "string \<Rightarrow> int \<times> num_error option" where
  "Atoi s = ParseInt s"

text \<open>
  \<^verbatim>\<open>fmt.Sprintf("%x", h)\<close> on a byte array prints two lower-case hexadecimal digits per
  byte.
\<close>

definition hex_digit :: "nat \<Rightarrow> char" where
  "hex_digit d = ''0123456789abcdef'' ! d"

definition Sprintf_x :: "byte list \<Rightarrow> string" where
  "Sprintf_x bs = concat (map (\<lambda>b. [hex_digit (unat b div 16), hex_digit (unat b mod 16)]) bs)"

section \<open>Chunker\<close>

text \<open>
  \<^verbatim>\<open>SplitIntoChunks\<close> has no error result.  The model makes its three ways of ending
  explicit: it returns the two maps, it panics on a slice expression whose bounds are out of
  range, or it never leaves the loop (\<^term>\<open>None\<close>).  The hash \<^verbatim>\<open>sha256.Sum256\<close> is the
  parameter \<open>H\<close>.
\<close>

datatype panic = SliceBoundsOutOfRange

type_synonym split_result = "(string, byte list) gomap \<times> (string, string) gomap"

partial_function (option) SplitIntoChunks_loop ::
  "(byte list \<Rightarrow> byte list) \<Rightarrow> byte list \<Rightarrow> int \<Rightarrow> int \<Rightarrow> int \<Rightarrow>
   (string, byte list) gomap \<Rightarrow> (string, string) gomap \<Rightarrow> (panic + split_result) option"
where
  "SplitIntoChunks_loop H data chunkSize i chunkNum chunks hashes =
    (if i < int (length data) then
       (let end0 = wrap64 (i + chunkSize);
            end1 = (if end0 > int (length data) then int (length data) else end0)
        in if i < 0 \<or> end1 < i then Some (Inl SliceBoundsOutOfRange)
           else
             (let chunk = take (nat (end1 - i)) (drop (nat i) data);
                  chunkKey = Itoa chunkNum
              in SplitIntoChunks_loop H data chunkSize (wrap64 (i + chunkSize)) (wrap64 (chunkNum + 1))
                   (AList.update chunkKey chunk chunks)
                   (AList.update chunkKey (Sprintf_x (H chunk)) hashes)))
     else Some (Inr (chunks, hashes)))"

definition SplitIntoChunks ::
  "(byte list \<Rightarrow> byte list) \<Rightarrow> byte list \<Rightarrow> int \<Rightarrow> (panic + split_result) option" where
  "SplitIntoChunks H data chunkSize = SplitIntoChunks_loop H data chunkSize 0 1 [] []"

text \<open>
  \<^verbatim>\<open>ReassembleChunks\<close> collects \<^verbatim>\<open>Atoi\<close> of every key (the error is discarded), sorts
  the numbers, and appends \<^verbatim>\<open>chunks[strconv.Itoa(k)]\<close> for each of them.
\<close>

definition ReassembleChunks :: "(string, byte list) gomap \<Rightarrow> byte list" where
  "ReassembleChunks chunks =
    (let keys = map (\<lambda>(k, v). fst (Atoi k)) chunks;
         keys' = sort keys
     in concat (map (\<lambda>k. index_bytes chunks (Itoa k)) keys'))"

text \<open>
  The specification's view of splitting: the payload is cut left to right into windows of
  \<open>s\<close> bytes, the last one holding what is left.  \<^term>\<open>piece_ids n k\<close> are the \<open>k\<close>
  piece identifiers counted upwards from \<open>n\<close>, in decimal.
\<close>

function spec_windows :: "nat \<Rightarrow> 'a list \<Rightarrow> 'a list list" where
  "spec_windows s xs = (if s = 0 \<or> xs = [] then [] else take s xs # spec_windows s (drop s xs))"
  by pat_completeness auto
termination
  by (relation "measure (\<lambda>(s, xs). length xs)") auto

declare spec_windows.simps [simp del]

definition piece_ids :: "int \<Rightarrow> nat \<Rightarrow> string list" where
  "piece_ids n k = map (\<lambda>j. Itoa (n + int j)) [0..<k]"

section \<open>Cipher\<close>

text \<open>
  \<^verbatim>\<open>crypto/aes\<close> and \<^verbatim>\<open>crypto/cipher\<close> belong to the standard library.  The AEAD that
  \<^verbatim>\<open>cipher.NewGCM\<close> returns is a parameter of the model: \<open>Seal g key nonce plaintext\<close> is
  the ciphertext followed by the tag (\<^term>\<open>None\<close> when \<^verbatim>\<open>Seal\<close> panics, as it does on a
  message beyond its size limit), and \<open>Open g key nonce ciphertext\<close> is the plaintext, or
  \<^term>\<open>None\<close> when authentication fails.  \<^verbatim>\<open>aes.NewCipher\<close> accepts keys of 16, 24 and
  32 bytes.  The bytes that \<^verbatim>\<open>rand.Reader\<close> supplies are the argument \<open>rnd\<close>;
  \<^verbatim>\<open>io.ReadFull\<close> fails when fewer than 12 are to be had.
\<close>

record gcm =
  Seal :: "byte list \<Rightarrow> byte list \<Rightarrow> byte list \<Rightarrow> byte list option"
  Open :: "byte list \<Rightarrow> byte list \<Rightarrow> byte list \<Rightarrow> byte list option"

datatype cipher_error =
    KeySizeError nat
  | EntropyUnavailable
  | EncryptedDataTooShort
  | AuthenticationFailed
  | MessageTooLarge

definition aes_NewCipher :: "byte list \<Rightarrow> cipher_error + byte list" where
  "aes_NewCipher key =
    (if length key = 16 \<or> length key = 24 \<or> length key = 32 then Inr key
     else Inl (KeySizeError (length key)))"

definition EncryptData :: "gcm \<Rightarrow> byte list \<Rightarrow> byte list \<Rightarrow> byte list \<Rightarrow> cipher_error + byte list" where
  "EncryptData g rnd plaintext key =
    (case aes_NewCipher key of
       Inl err \<Rightarrow> Inl err
     | Inr block \<Rightarrow>
         if length rnd < 12 then Inl EntropyUnavailable
         else
           (let nonce = take 12 rnd
            in case Seal g block nonce plaintext of
                 None \<Rightarrow> Inl MessageTooLarge
               | Some ciphertext \<Rightarrow> Inr (nonce @ ciphertext)))"

definition DecryptData :: "gcm \<Rightarrow> byte list \<Rightarrow> byte list \<Rightarrow> cipher_error + byte list" where
  "DecryptData g encryptedData key =
    (if length encryptedData < 12 then Inl EncryptedDataTooShort
     else
       (case aes_NewCipher key of
          Inl err \<Rightarrow> Inl err
        | Inr block \<Rightarrow>
            (let nonce = take 12 encryptedData;
                 ciphertext = drop 12 encryptedData
             in case Open g block nonce ciphertext of
                  None \<Rightarrow> Inl AuthenticationFailed
                | Some plaintext \<Rightarrow> Inr plaintext)))"

text \<open>
  The contract of GCM that the claims rely on: what \<^verbatim>\<open>Seal\<close> produced, \<^verbatim>\<open>Open\<close> gives
  back under the same key and nonce; the sealed message is 16 bytes (the tag) longer than the
  plaintext; and \<^verbatim>\<open>Open\<close> only accepts messages that carry a tag.
\<close>

definition gcm_contract :: "gcm \<Rightarrow> bool" where
  "gcm_contract g =
    (\<forall>key nonce p c.
       (Seal g key nonce p = Some c \<longrightarrow> Open g key nonce c = Some p \<and> length c = length p + 16)
       \<and> (Open g key nonce c = Some p \<longrightarrow> length c = length p + 16))"

text \<open>
  A small AEAD that keeps the contract, to run the model on: it adds one to every byte and
  appends the first 16 bytes of key and nonce (padded with zeros) as the tag.
\<close>

definition sample_tag :: "byte list \<Rightarrow> byte list \<Rightarrow> byte list" where
  "sample_tag key nonce = take 16 (key @ nonce @ replicate 16 0)"

definition sample_gcm :: gcm where
  "sample_gcm =
    \<lparr> Seal = (\<lambda>key nonce p. Some (map (\<lambda>b. b + 1) p @ sample_tag key nonce)),
      Open = (\<lambda>key nonce c.
        if 16 \<le> length c \<and> drop (length c - 16) c = sample_tag key nonce
        then Some (map (\<lambda>b. b - 1) (take (length c - 16) c)) else None) \<rparr>"

section \<open>Transfer manifest\<close>

text \<open>
  The struct \<^verbatim>\<open>Metadata\<close>.  A map field is \<^term>\<open>None\<close> for Go's nil map;
  \<^term>\<open>entries\<close> is what \<^verbatim>\<open>len\<close>, \<^verbatim>\<open>range\<close> and indexing see of it.
\<close>

record Metadata =
  Filename :: string
  Encrypted :: bool
  Key :: string
  Chunked :: bool
  FileID :: string
  ChunkIDs :: "(string, string) gomap option"
  ChunkHashes :: "(string, string) gomap option"
  FileHash :: string

definition entries :: "('k, 'v) gomap option \<Rightarrow> ('k, 'v) gomap" where
  "entries mo = (case mo of None \<Rightarrow> [] | Some m \<Rightarrow> m)"

definition zero_Metadata :: Metadata where
  "zero_Metadata =
    \<lparr> Filename = [], Encrypted = False, Key = [], Chunked = False, FileID = [],
      ChunkIDs = None, ChunkHashes = None, FileHash = [] \<rparr>"

text \<open>
  \<^verbatim>\<open>encoding/json\<close> writes and reads strings as UTF-8.  \<^verbatim>\<open>utf8.DecodeRune\<close> accepts
  the well-formed sequences of one to four bytes; \<^term>\<open>DecodeRune_size\<close> is the length of
  the sequence at the head of a string, and 0 when there is none.  Both the encoder and the
  decoder replace every byte that does not start a well-formed sequence by the three bytes of
  U+FFFD and go on with the next byte.
\<close>

definition in_range :: "nat \<Rightarrow> nat \<Rightarrow> char \<Rightarrow> bool" where
  "in_range lo hi c = (lo \<le> (of_char c :: nat) \<and> (of_char c :: nat) \<le> hi)"

fun DecodeRune_size :: "string \<Rightarrow> nat" where
  "DecodeRune_size [] = 0"
| "DecodeRune_size (c # cs) =
    (let b = (of_char c :: nat)
     in if b < 128 then 1
        else if 194 \<le> b \<and> b \<le> 223 then
          (case cs of
             c1 # _ \<Rightarrow> if in_range 128 191 c1 then 2 else 0
           | _ \<Rightarrow> 0)
        else if 224 \<le> b \<and> b \<le> 239 then
          (case cs of
             c1 # c2 # _ \<Rightarrow>
               if in_range (if b = 224 then 160 else 128) (if b = 237 then 159 else 191) c1
                  \<and> in_range 128 191 c2
               then 3 else 0
           | _ \<Rightarrow> 0)
        else if 240 \<le> b \<and> b \<le> 244 then
          (case cs of
             c1 # c2 # c3 # _ \<Rightarrow>
               if in_range (if b = 240 then 144 else 128) (if b = 244 then 143 else 191) c1
                  \<and> in_range 128 191 c2 \<and> in_range 128 191 c3
               then 4 else 0
           | _ \<Rightarrow> 0)
        else 0)"

definition RuneError :: string where
  "RuneError = [CHR 0xEF, CHR 0xBF, CHR 0xBD]"

function coerce_utf8 :: "string \<Rightarrow> string" where
  "coerce_utf8 s =
    (if s = [] then []
     else if DecodeRune_size s = 0 then RuneError @ coerce_utf8 (tl s)
     else take (DecodeRune_size s) s @ coerce_utf8 (drop (DecodeRune_size s) s))"
  by pat_completeness auto
termination
  by (relation "measure length") auto

declare coerce_utf8.simps [simp del]

definition valid_utf8 :: "string \<Rightarrow> bool" where
  "valid_utf8 s = (coerce_utf8 s = s)"

text \<open>
  The decoder matches the name of an object member with a tag of the struct exactly or,
  failing that, after case folding.  Folding turns the letters \<open>a\<close> to \<open>z\<close> into capitals
  and every other character into the least character of its case orbit; the Kelvin sign
  U+212A folds to \<open>K\<close> and the long s U+017F to \<open>S\<close>, and these are the only characters
  outside ASCII that fold to an ASCII character.  Since all tags of \<^verbatim>\<open>Metadata\<close> are
  ASCII and differ after folding, a name matches a tag if and only if both fold to the same
  string; \<^term>\<open>foldName\<close> leaves the other characters outside ASCII as they are, which
  does not change whether a name folds to an ASCII string.
\<close>

definition to_upper :: "char \<Rightarrow> char" where
  "to_upper c =
    (if in_range 97 122 c then ''ABCDEFGHIJKLMNOPQRSTUVWXYZ'' ! ((of_char c :: nat) - 97) else c)"

function foldName :: "string \<Rightarrow> string" where
  "foldName s =
    (if s = [] then []
     else if take 3 s = [CHR 0xE2, CHR 0x84, CHR 0xAA] then CHR ''K'' # foldName (drop 3 s)
     else if take 2 s = [CHR 0xC5, CHR 0xBF] then CHR ''S'' # foldName (drop 2 s)
     else to_upper (hd s) # foldName (tl s))"
  by pat_completeness auto
termination
  by (relation "measure length") auto

declare foldName.simps [simp del]

text \<open>
  \<^verbatim>\<open>encoding/json\<close> is modelled on JSON documents: a \<^term>\<open>JString\<close> holds the bytes of a
  string literal with its escapes resolved.  \<^verbatim>\<open>Marshal\<close> writes the fields in the order
  of the struct under the names of their tags; a field tagged \<^verbatim>\<open>omitempty\<close> is left out
  when it is the empty string or a map without entries; the entries of a map are written
  sorted by key; every string, map key and map value is written coerced to UTF-8.
  \<^verbatim>\<open>Unmarshal\<close> starts from the zero struct and assigns the members of the object in their
  order; it coerces every string it reads, skips members whose name matches no tag of the
  struct, leaves a string or bool untouched on \<^verbatim>\<open>null\<close>, sets a map to nil on
  \<^verbatim>\<open>null\<close>, and fails on a value of the wrong type.
\<close>

datatype json =
    JNull
  | JBool bool
  | JString string
  | JNumber int
  | JArray "json list"
  | JObject "(string \<times> json) list"

datatype json_error = UnmarshalTypeError string

definition marshal_map :: "(string, string) gomap \<Rightarrow> json" where
  "marshal_map m =
    JObject (map (\<lambda>(k, v). (coerce_utf8 k, JString (coerce_utf8 v))) (sort_key fst m))"

definition omitempty_string :: "string \<Rightarrow> string \<Rightarrow> (string \<times> json) list" where
  "omitempty_string name s = (if s = [] then [] else [(name, JString (coerce_utf8 s))])"

definition omitempty_map :: "string \<Rightarrow> (string, string) gomap option \<Rightarrow> (string \<times> json) list" where
  "omitempty_map name mo = (if entries mo = [] then [] else [(name, marshal_map (entries mo))])"

definition Marshal :: "Metadata \<Rightarrow> json" where
  "Marshal md =
    JObject
      ([(''filename'', JString (coerce_utf8 (Filename md))), (''encrypted'', JBool (Encrypted md))]
       @ omitempty_string ''key'' (Key md)
       @ [(''chunked'', JBool (Chunked md))]
       @ omitempty_string ''file_id'' (FileID md)
       @ omitempty_map ''chunk_ids'' (ChunkIDs md)
       @ omitempty_map ''chunk_hashes'' (ChunkHashes md)
       @ omitempty_string ''file_hash'' (FileHash md))"

fun unmarshal_string :: "string \<Rightarrow> json \<Rightarrow> string \<Rightarrow> json_error + string" where
  "unmarshal_string name (JString s) cur = Inr (coerce_utf8 s)"
| "unmarshal_string name JNull cur = Inr cur"
| "unmarshal_string name _ cur = Inl (UnmarshalTypeError name)"

fun unmarshal_bool :: "string \<Rightarrow> json \<Rightarrow> bool \<Rightarrow> json_error + bool" where
  "unmarshal_bool name (JBool b) cur = Inr b"
| "unmarshal_bool name JNull cur = Inr cur"
| "unmarshal_bool name _ cur = Inl (UnmarshalTypeError name)"

fun unmarshal_entries ::
  "string \<Rightarrow> (string \<times> json) list \<Rightarrow> (string, string) gomap \<Rightarrow> json_error + (string, string) gomap" where
  "unmarshal_entries name [] m = Inr m"
| "unmarshal_entries name ((k, JString s) # ms) m =
     unmarshal_entries name ms (AList.update (coerce_utf8 k) (coerce_utf8 s) m)"
| "unmarshal_entries name ((k, JNull) # ms) m =
     unmarshal_entries name ms (AList.update (coerce_utf8 k) [] m)"
| "unmarshal_entries name ((k, _) # ms) m = Inl (UnmarshalTypeError name)"

fun unmarshal_map ::
  "string \<Rightarrow> json \<Rightarrow> (string, string) gomap option \<Rightarrow> json_error + (string, string) gomap option" where
  "unmarshal_map name (JObject ms) cur =
     (case unmarshal_entries name ms (entries cur) of Inl err \<Rightarrow> Inl err | Inr m \<Rightarrow> Inr (Some m))"
| "unmarshal_map name JNull cur = Inr None"
| "unmarshal_map name _ cur = Inl (UnmarshalTypeError name)"

definition unmarshal_field :: "string \<Rightarrow> json \<Rightarrow> Metadata \<Rightarrow> json_error + Metadata" where
  "unmarshal_field name v md =
    (if foldName name = foldName ''filename'' then
       (case unmarshal_string name v (Filename md) of Inl err \<Rightarrow> Inl err | Inr s \<Rightarrow> Inr (md\<lparr>Filename := s\<rparr>))
     else if foldName name = foldName ''encrypted'' then
       (case unmarshal_bool name v (Encrypted md) of Inl err \<Rightarrow> Inl err | Inr b \<Rightarrow> Inr (md\<lparr>Encrypted := b\<rparr>))
     else if foldName name = foldName ''key'' then
       (case unmarshal_string name v (Key md) of Inl err \<Rightarrow> Inl err | Inr s \<Rightarrow> Inr (md\<lparr>Key := s\<rparr>))
     else if foldName name = foldName ''chunked'' then
       (case unmarshal_bool name v (Chunked md) of Inl err \<Rightarrow> Inl err | Inr b \<Rightarrow> Inr (md\<lparr>Chunked := b\<rparr>))
     else if foldName name = foldName ''file_id'' then
       (case unmarshal_string name v (FileID md) of Inl err \<Rightarrow> Inl err | Inr s \<Rightarrow> Inr (md\<lparr>FileID := s\<rparr>))
     else if foldName name = foldName ''chunk_ids'' then
       (case unmarshal_map name v (ChunkIDs md) of Inl err \<Rightarrow> Inl err | Inr m \<Rightarrow> Inr (md\<lparr>ChunkIDs := m\<rparr>))
     else if foldName name = foldName ''chunk_hashes'' then
       (case unmarshal_map name v (ChunkHashes md) of Inl err \<Rightarrow> Inl err | Inr m \<Rightarrow> Inr (md\<lparr>ChunkHashes := m\<rparr>))
     else if foldName name = foldName ''file_hash'' then
       (case unmarshal_string name v (FileHash md) of Inl err \<Rightarrow> Inl err | Inr s \<Rightarrow> Inr (md\<lparr>FileHash := s\<rparr>))
     else Inr md)"

fun unmarshal_members :: "(string \<times> json) list \<Rightarrow> Metadata \<Rightarrow> json_error + Metadata" where
  "unmarshal_members [] md = Inr md"
| "unmarshal_members ((name, v) # ms) md =
     (case unmarshal_field (coerce_utf8 name) v md of
        Inl err \<Rightarrow> Inl err
      | Inr md' \<Rightarrow> unmarshal_members ms md')"

fun Unmarshal :: "json \<Rightarrow> json_error + Metadata" where
  "Unmarshal (JObject ms) = unmarshal_members ms zero_Metadata"
| "Unmarshal JNull = Inr zero_Metadata"
| "Unmarshal _ = Inl (UnmarshalTypeError ''Metadata'')"

definition has_field :: "string \<Rightarrow> json \<Rightarrow> bool" where
  "has_field name j = (case j of JObject ms \<Rightarrow> name \<in> set (map fst ms) | _ \<Rightarrow> False)"

text \<open>
  Two manifests are the same when their scalar fields are equal and their maps hold the same
  entries; a Go map has no order, and a nil map reads like an empty one.  A manifest is valid
  when all its strings, map keys and map values are well-formed UTF-8, and well formed when
  the keys of each map are pairwise distinct, as they are in a Go map.
\<close>

definition same_manifest :: "Metadata \<Rightarrow> Metadata \<Rightarrow> bool" where
  "same_manifest a b =
    (Filename a = Filename b \<and> Encrypted a = Encrypted b \<and> Key a = Key b \<and> Chunked a = Chunked b
     \<and> FileID a = FileID b \<and> FileHash a = FileHash b
     \<and> map_of (entries (ChunkIDs a)) = map_of (entries (ChunkIDs b))
     \<and> map_of (entries (ChunkHashes a)) = map_of (entries (ChunkHashes b)))"

definition valid_entries :: "(string, string) gomap \<Rightarrow> bool" where
  "valid_entries m = list_all (\<lambda>(k, v). valid_utf8 k \<and> valid_utf8 v) m"

definition valid_manifest :: "Metadata \<Rightarrow> bool" where
  "valid_manifest md =
    (valid_utf8 (Filename md) \<and> valid_utf8 (Key md) \<and> valid_utf8 (FileID md)
     \<and> valid_utf8 (FileHash md)
     \<and> valid_entries (entries (ChunkIDs md)) \<and> valid_entries (entries (ChunkHashes md)))"

definition well_formed :: "Metadata \<Rightarrow> bool" where
  "well_formed md =
    (distinct (map fst (entries (ChunkIDs md))) \<and> distinct (map fst (entries (ChunkHashes md))))"

text \<open>
  The fields that do not apply are empty: no key unless encrypted, no chunk maps unless
  chunked, no single file reference and hash when chunked.  The upload path builds its
  manifests this way.
\<close>

definition only_applicable :: "Metadata \<Rightarrow> bool" where
  "only_applicable md =
    ((\<not> Encrypted md \<longrightarrow> Key md = [])
     \<and> (\<not> Chunked md \<longrightarrow> entries (ChunkIDs md) = [] \<and> entries (ChunkHashes md) = [])
     \<and> (Chunked md \<longrightarrow> FileID md = [] \<and> FileHash md = []))"

section \<open>Download\<close>






section \<open>Sample values\<close>

text \<open>
  What \<^verbatim>\<open>Unmarshal\<close> makes of a marshalled map: nil when it has no entries, else the
  coerced entries assigned in the order of their keys (\<^term>\<open>reread_map\<close>); for a valid map
  with distinct keys these are the entries themselves in the order of their keys
  (\<^term>\<open>canonical_map\<close>).
\<close>

definition canonical_map :: "(string, string) gomap option \<Rightarrow> (string, string) gomap option" where
  "canonical_map mo = (if entries mo = [] then None else Some (sort_key fst (entries mo)))"

definition reread_map :: "(string, string) gomap option \<Rightarrow> (string, string) gomap option" where
  "reread_map mo =
    (if entries mo = [] then None
     else Some (AList.updates (map (\<lambda>(k, v). coerce_utf8 k) (sort_key fst (entries mo)))
                 (map (\<lambda>(k, v). coerce_utf8 v) (sort_key fst (entries mo))) []))"

text \<open>
  Manifests, an object store and a base64 decoder to run the model on: a chunked manifest as
  upload builds it, a manifest that carries a key although it is not encrypted, a chunked
  manifest without chunk references (with and without a file name), an encrypted manifest
  without key material, and a manifest whose file name is the byte \<open>0xFF\<close>, which is not
  UTF-8.  The store holds twelve bytes under the reference \<open>ref\<close>; the decoder knows the empty
  string; the file system refuses the empty file name and writes every other file.
\<close>

definition chunked_manifest :: Metadata where
  "chunked_manifest =
    \<lparr> Filename = ''a.bin'', Encrypted = False, Key = [], Chunked = True, FileID = [],
      ChunkIDs = Some [(''2'', ''ref2''), (''1'', ''ref1'')],
      ChunkHashes = Some [(''2'', ''h2''), (''1'', ''h1'')], FileHash = [] \<rparr>"

definition stray_key_manifest :: Metadata where
  "stray_key_manifest =
    \<lparr> Filename = ''a.bin'', Encrypted = False, Key = ''c2VjcmV0'', Chunked = False, FileID = ''ref'',
      ChunkIDs = None, ChunkHashes = None, FileHash = ''h'' \<rparr>"







definition invalid_name_manifest :: Metadata where
  "invalid_name_manifest =
    \<lparr> Filename = [CHR 0xFF], Encrypted = False, Key = [], Chunked = False, FileID = ''ref'',
      ChunkIDs = None, ChunkHashes = None, FileHash = ''h'' \<rparr>"

section \<open>Decimal formatting and parsing are inverse\<close>

lemma of_char_digit_char: "d < 10 \<Longrightarrow> (of_char (digit_char d) :: nat) = 48 + d"
proof -
  assume "d < 10"
  then consider "d = 0" | "d = 1" | "d = 2" | "d = 3" | "d = 4" | "d = 5" | "d = 6" | "d = 7"
    | "d = 8" | "d = 9" by atomize_elim presburger
  then show ?thesis by cases (simp_all add: digit_char_def)
qed

lemma is_digit_digit_char: "d < 10 \<Longrightarrow> is_digit (digit_char d)"
  by (simp add: is_digit_def of_char_digit_char)

lemma ParseUint_loop_append:
  "ParseUint_loop (xs @ ys) n =
     (case ParseUint_loop xs n of (n', None) \<Rightarrow> ParseUint_loop ys n' | (n', Some e) \<Rightarrow> (n', Some e))"
  by (induction xs arbitrary: n) auto

lemma ParseUint_loop_FormatUint:
  "m \<le> maxUint64 \<Longrightarrow> ParseUint_loop (FormatUint m) 0 = (m, None)"
proof (induction m rule: FormatUint.induct)
  case (1 n)
  show ?case
  proof (cases "n < 10")
    case True
    then show ?thesis using 1(2)
      by (subst FormatUint.simps) (simp add: is_digit_digit_char of_char_digit_char maxUint64_def)
  next
    case False
    have small: "n div 10 \<le> maxUint64" using 1(2) by simp
    have ih: "ParseUint_loop (FormatUint (n div 10)) 0 = (n div 10, None)"
      using 1(1) False small by simp
    have d: "n mod 10 < 10" by simp
    have c: "\<not> maxUint64 div 10 + 1 \<le> n div 10" using 1(2) by (simp add: maxUint64_def)
    have e: "n div 10 * 10 + n mod 10 = n" by simp
    show ?thesis using False 1(2)
      by (subst FormatUint.simps)
         (simp add: ParseUint_loop_append ih is_digit_digit_char of_char_digit_char c e)
  qed
qed

lemma FormatUint_nonempty: "FormatUint n \<noteq> []"
  by (subst FormatUint.simps) simp

lemma hd_FormatUint_digit: "is_digit (hd (FormatUint n))"
proof (induction n rule: FormatUint.induct)
  case (1 n)
  show ?case
  proof (cases "n < 10")
    case True
    then show ?thesis by (subst FormatUint.simps) (simp add: is_digit_digit_char)
  next
    case False
    then show ?thesis using 1 FormatUint_nonempty[of "n div 10"]
      by (subst FormatUint.simps) (simp)
  qed
qed

lemma is_digit_not_sign: "is_digit c \<Longrightarrow> c \<noteq> CHR ''-'' \<and> c \<noteq> CHR ''+''"
  by (auto simp: is_digit_def)

lemma Atoi_Itoa:
  assumes "MinInt64 \<le> n" "n \<le> MaxInt64"
  shows "Atoi (Itoa n) = (n, None)"
proof (cases "n < 0")
  case True
  have m: "nat (- n) \<le> maxUint64" using assms True by (simp add: MinInt64_def maxUint64_def)
  have "ParseUint (FormatUint (nat (- n))) = (nat (- n), None)"
    using ParseUint_loop_FormatUint[OF m] FormatUint_nonempty by (simp add: ParseUint_def)
  then show ?thesis using True assms
    by (simp add: Atoi_def ParseInt_def Itoa_def MinInt64_def MaxInt64_def)
next
  case False
  have m: "nat n \<le> maxUint64" using assms False by (simp add: MaxInt64_def maxUint64_def)
  have p: "ParseUint (FormatUint (nat n)) = (nat n, None)"
    using ParseUint_loop_FormatUint[OF m] FormatUint_nonempty by (simp add: ParseUint_def)
  have s: "hd (FormatUint (nat n)) \<noteq> CHR ''-''" "hd (FormatUint (nat n)) \<noteq> CHR ''+''"
    using is_digit_not_sign[OF hd_FormatUint_digit] by auto
  show ?thesis using False assms p s FormatUint_nonempty[of "nat n"]
    by (simp add: Atoi_def ParseInt_def Itoa_def MinInt64_def MaxInt64_def)
qed

section \<open>The splitting loop\<close>

lemma wrap64_id: "- (2 ^ 63) \<le> x \<Longrightarrow> x < 2 ^ 63 \<Longrightarrow> wrap64 x = x"
  by (simp add: wrap64_def)

lemma concat_spec_windows: "0 < s \<Longrightarrow> concat (spec_windows s xs) = xs"
proof (induction s xs rule: spec_windows.induct)
  case (1 s xs)
  then show ?case by (subst spec_windows.simps) auto
qed

lemma piece_ids_Suc: "piece_ids n (Suc k) = Itoa n # piece_ids (n + 1) k"
proof -
  have "[0..<Suc k] = 0 # map Suc [0..<k]"
    by (simp add: upt_conv_Cons map_Suc_upt del: upt_Suc)
  then show ?thesis by (simp add: piece_ids_def comp_def add.assoc del: upt_Suc)
qed

lemma SplitIntoChunks_loop_pos:
  assumes cs: "0 < chunkSize" "chunkSize < 2 ^ 63" and len: "length data \<le> 2 ^ 62"
  shows "0 \<le> i \<Longrightarrow> i = 0 \<or> chunkSize \<le> i \<Longrightarrow> 1 \<le> n \<Longrightarrow> n \<le> i + 1 \<Longrightarrow>
     SplitIntoChunks_loop H data chunkSize i n chunks hashes =
       Some (Inr (let ws = spec_windows (nat chunkSize) (drop (nat i) data);
                      ks = piece_ids n (length ws)
                  in (AList.updates ks ws chunks,
                      AList.updates ks (map (\<lambda>w. Sprintf_x (H w)) ws) hashes)))"
proof (induction "length data - nat i" arbitrary: i n chunks hashes rule: less_induct)
  case less
  show ?case
  proof (cases "i < int (length data)")
    case False
    then have "drop (nat i) data = []" by simp
    then show ?thesis using False
      by (subst SplitIntoChunks_loop.simps) (simp add: spec_windows.simps piece_ids_def)
  next
    case True
    have lenI: "int (length data) \<le> 2 ^ 62" using len by (simp add: of_nat_le_iff[symmetric] del: of_nat_le_iff)
    have nowrap: "i + chunkSize < 2 ^ 63"
      using less.prems True cs lenI by auto
    have w1: "wrap64 (i + chunkSize) = i + chunkSize"
      using nowrap less.prems cs by (intro wrap64_id) auto
    have w2: "wrap64 (n + 1) = n + 1"
      using less.prems True lenI by (intro wrap64_id) auto
    let ?rest = "drop (nat i) data"
    have ne: "?rest \<noteq> []" using True less.prems by simp
    have chunk: "take (nat ((if int (length data) < i + chunkSize then int (length data) else i + chunkSize) - i)) ?rest
                 = take (nat chunkSize) ?rest"
    proof (cases "int (length data) < i + chunkSize")
      case L: True
      have "nat (int (length data) - i) = length ?rest" using less.prems by (simp add: nat_diff_distrib)
      moreover have "length ?rest \<le> nat chunkSize" using L less.prems by simp
      ultimately show ?thesis using L by simp
    next
      case L: False
      then show ?thesis by simp
    qed
    have drop: "drop (nat (i + chunkSize)) data = drop (nat chunkSize) ?rest"
      using less.prems cs by (simp add: nat_add_distrib add.commute)
    have ok: "\<not> (i < 0 \<or> (if int (length data) < i + chunkSize then int (length data) else i + chunkSize) < i)"
      using True less.prems cs by auto
    have meas: "length data - nat (i + chunkSize) < length data - nat i"
      using True less.prems cs by linarith
    have ih: "SplitIntoChunks_loop H data chunkSize (i + chunkSize) (n + 1) chunks' hashes' =
        Some (Inr (let ws = spec_windows (nat chunkSize) (drop (nat (i + chunkSize)) data);
                      ks = piece_ids (n + 1) (length ws)
                  in (AList.updates ks ws chunks',
                      AList.updates ks (map (\<lambda>w. Sprintf_x (H w)) ws) hashes')))" for chunks' hashes'
      using less.hyps[OF meas] less.prems cs by simp
    have unf: "spec_windows (nat chunkSize) ?rest =
               take (nat chunkSize) ?rest # spec_windows (nat chunkSize) (drop (nat chunkSize) ?rest)"
      using ne cs by (subst spec_windows.simps) simp
    show ?thesis
      apply (subst SplitIntoChunks_loop.simps)
      apply (simp only: True if_True Let_def w1 w2 ok if_False chunk ih drop)
      apply (simp only: unf list.size length_Cons piece_ids_Suc list.map AList.updates_simps)
      apply (simp add: Let_def piece_ids_Suc)
      done
  qed
qed

section \<open>Pieces and identifiers\<close>

lemma update_fresh: "k \<notin> fst ` set al \<Longrightarrow> AList.update k v al = al @ [(k, v)]"
  by (induction al) auto

lemma updates_fresh:
  "distinct ks \<Longrightarrow> set ks \<inter> fst ` set al = {} \<Longrightarrow> length ks = length vs \<Longrightarrow>
   AList.updates ks vs al = al @ zip ks vs"
proof (induction ks arbitrary: vs al)
  case Nil
  then show ?case by simp
next
  case (Cons k ks)
  then obtain v vs' where vs: "vs = v # vs'" by (cases vs) auto
  have fresh: "k \<notin> fst ` set al" using Cons.prems by auto
  have "set ks \<inter> fst ` set (al @ [(k, v)]) = {}" using Cons.prems by auto
  then have "AList.updates ks vs' (al @ [(k, v)]) = (al @ [(k, v)]) @ zip ks vs'"
    using Cons.IH[of "al @ [(k, v)]" vs'] Cons.prems vs by simp
  then show ?case using vs fresh by (simp add: update_fresh)
qed

lemma Itoa_inj:
  assumes "MinInt64 \<le> a" "a \<le> MaxInt64" "MinInt64 \<le> b" "b \<le> MaxInt64" "Itoa a = Itoa b"
  shows "a = b"
proof -
  have "Atoi (Itoa a) = Atoi (Itoa b)" using assms(5) by simp
  then show ?thesis using Atoi_Itoa[OF assms(1,2)] Atoi_Itoa[OF assms(3,4)] by simp
qed

lemma length_piece_ids: "length (piece_ids n k) = k"
  by (simp add: piece_ids_def)

lemma nth_piece_ids: "j < k \<Longrightarrow> piece_ids n k ! j = Itoa (n + int j)"
  by (simp add: piece_ids_def)

lemma distinct_piece_ids:
  assumes "MinInt64 \<le> n" "n + int k \<le> MaxInt64 + 1"
  shows "distinct (piece_ids n k)"
proof -
  have "inj_on (\<lambda>j. Itoa (n + int j)) (set [0..<k])"
  proof (rule inj_onI)
    fix x y assume "x \<in> set [0..<k]" "y \<in> set [0..<k]" "Itoa (n + int x) = Itoa (n + int y)"
    then have "n + int x = n + int y"
      using assms by (intro Itoa_inj) auto
    then show "x = y" by simp
  qed
  then show ?thesis by (simp add: piece_ids_def distinct_map)
qed

lemma Atoi_piece_ids:
  assumes "MinInt64 \<le> n" "n + int k \<le> MaxInt64 + 1"
  shows "map (\<lambda>s. fst (Atoi s)) (piece_ids n k) = map (\<lambda>j. n + int j) [0..<k]"
  using assms by (auto simp: piece_ids_def Atoi_Itoa)

lemma length_spec_windows_le: "length (spec_windows s xs) \<le> length xs"
proof (induction s xs rule: spec_windows.induct)
  case (1 s xs)
  show ?case
  proof (cases "s = 0 \<or> xs = []")
    case True
    then show ?thesis by (subst spec_windows.simps) simp
  next
    case False
    then have "length (spec_windows s (drop s xs)) \<le> length xs - s" using 1 by simp
    moreover have "0 < length xs" "0 < s" using False by auto
    ultimately have "Suc (length (spec_windows s (drop s xs))) \<le> length xs" by linarith
    moreover have "spec_windows s xs = take s xs # spec_windows s (drop s xs)"
      using False by (subst spec_windows.simps) simp
    ultimately show ?thesis by simp
  qed
qed

lemma SplitIntoChunks_pos:
  assumes "0 < chunkSize" "chunkSize < 2 ^ 63" "length data \<le> 2 ^ 62"
  shows "SplitIntoChunks H data chunkSize =
     Some (Inr (zip (piece_ids 1 (length (spec_windows (nat chunkSize) data))) (spec_windows (nat chunkSize) data),
                zip (piece_ids 1 (length (spec_windows (nat chunkSize) data)))
                    (map (\<lambda>w. Sprintf_x (H w)) (spec_windows (nat chunkSize) data))))"
proof -
  let ?ws = "spec_windows (nat chunkSize) data"
  let ?ks = "piece_ids 1 (length ?ws)"
  have "length ?ws \<le> 2 ^ 62" using length_spec_windows_le[of "nat chunkSize" data] assms(3) by linarith
  then have "int (length ?ws) \<le> 2 ^ 62" by (simp add: of_nat_le_iff[symmetric] del: of_nat_le_iff)
  then have d: "distinct ?ks"
    by (intro distinct_piece_ids) (auto simp: MinInt64_def MaxInt64_def)
  have "SplitIntoChunks H data chunkSize =
      Some (Inr (AList.updates ?ks ?ws [], AList.updates ?ks (map (\<lambda>w. Sprintf_x (H w)) ?ws) []))"
    unfolding SplitIntoChunks_def
    using SplitIntoChunks_loop_pos[OF assms, of 0 1 H "[]" "[]"] by (simp add: Let_def)
  then show ?thesis using d by (simp add: updates_fresh length_piece_ids)
qed

lemma index_bytes_zip:
  "distinct ks \<Longrightarrow> length ks = length vs \<Longrightarrow> j < length vs \<Longrightarrow> index_bytes (zip ks vs) (ks ! j) = vs ! j"
  by (simp add: index_bytes_def map_of_zip_nth)

lemma sorted_upt_int: "sort (map (\<lambda>j. n + int j) [0..<k]) = map (\<lambda>j. n + int j) [0..<k]"
  by (intro sorted_sort_id) (auto simp: sorted_map intro!: sorted_wrt_mono_rel[of _ "(<)"] )

lemma ReassembleChunks_zip:
  assumes "MinInt64 \<le> n" "n + int (length ws) \<le> MaxInt64 + 1"
  shows "ReassembleChunks (zip (piece_ids n (length ws)) ws) = concat ws"
proof -
  let ?k = "length ws"
  let ?ks = "piece_ids n ?k"
  have d: "distinct ?ks" using assms by (rule distinct_piece_ids)
  have keys: "map (\<lambda>(k, v). fst (Atoi k)) (zip ?ks ws) = map (\<lambda>j. n + int j) [0..<?k]"
  proof -
    have "map (\<lambda>(k, v). fst (Atoi k)) (zip ?ks ws) = map (\<lambda>s. fst (Atoi s)) (map fst (zip ?ks ws))"
      by (simp add: case_prod_beta comp_def)
    also have "map fst (zip ?ks ws) = ?ks" by (simp add: length_piece_ids)
    finally show ?thesis using Atoi_piece_ids[OF assms] by simp
  qed
  have "map (\<lambda>k. index_bytes (zip ?ks ws) (Itoa k)) (map (\<lambda>j. n + int j) [0..<?k]) = map (\<lambda>j. ws ! j) [0..<?k]"
    using index_bytes_zip[OF d, of ws] by (auto simp: length_piece_ids nth_piece_ids[symmetric])
  then show ?thesis
    unfolding ReassembleChunks_def Let_def keys sorted_upt_int by (simp add: map_nth)
qed

section \<open>Windows of the payload; chunk sizes that are not positive\<close>

lemma spec_windows_Nil: "spec_windows s [] = []"
  by (subst spec_windows.simps) simp

lemma spec_windows_Cons:
  "0 < s \<Longrightarrow> xs \<noteq> [] \<Longrightarrow> spec_windows s xs = take s xs # spec_windows s (drop s xs)"
  by (subst spec_windows.simps) simp

lemma nth_spec_windows:
  "0 < s \<Longrightarrow> j < length (spec_windows s xs) \<Longrightarrow> spec_windows s xs ! j = take s (drop (j * s) xs)"
proof (induction j arbitrary: xs)
  case 0
  then have "xs \<noteq> []" by (auto simp: spec_windows_Nil)
  then show ?case using 0 by (simp add: spec_windows_Cons)
next
  case (Suc j)
  then have ne: "xs \<noteq> []" by (auto simp: spec_windows_Nil)
  then have "j < length (spec_windows s (drop s xs))" using Suc.prems by (simp add: spec_windows_Cons)
  then have "spec_windows s (drop s xs) ! j = take s (drop (j * s) (drop s xs))"
    using Suc.IH Suc.prems by simp
  then show ?case using ne Suc.prems by (simp add: spec_windows_Cons add.commute)
qed

lemma spec_windows_pieces:
  "0 < s \<Longrightarrow> w \<in> set (spec_windows s xs) \<Longrightarrow> w \<noteq> [] \<and> length w \<le> s"
proof (induction s xs rule: spec_windows.induct)
  case (1 s xs)
  then have ne: "xs \<noteq> []" by (auto simp: spec_windows_Nil)
  then have "w = take s xs \<or> w \<in> set (spec_windows s (drop s xs))"
    using 1 by (simp add: spec_windows_Cons)
  then show ?case using 1 ne by auto
qed

lemma spec_windows_full:
  "0 < s \<Longrightarrow> Suc j < length (spec_windows s xs) \<Longrightarrow> length (spec_windows s xs ! j) = s"
proof (induction j arbitrary: xs)
  case 0
  then have ne: "xs \<noteq> []" by (auto simp: spec_windows_Nil)
  then have "spec_windows s (drop s xs) \<noteq> []" using 0 by (auto simp: spec_windows_Cons)
  then have "drop s xs \<noteq> []" by (auto simp: spec_windows_Nil)
  then show ?case using 0 ne by (simp add: spec_windows_Cons)
next
  case (Suc j)
  then have ne: "xs \<noteq> []" by (auto simp: spec_windows_Nil)
  then show ?case using Suc by (simp add: spec_windows_Cons)
qed

lemma spec_windows_25M:
  assumes "length xs = 25000000"
  shows "map length (spec_windows 10000000 xs) = [10000000, 10000000, 5000000]"
proof -
  let ?s = "10000000 :: nat"
  let ?x1 = "drop ?s xs"
  let ?x2 = "drop ?s ?x1"
  let ?x3 = "drop ?s ?x2"
  have l1: "length ?x1 = 15000000" using assms by simp
  have l2: "length ?x2 = 5000000" using assms by simp
  have l3: "?x3 = []" using assms by simp
  have w0: "spec_windows ?s xs = take ?s xs # spec_windows ?s ?x1"
    using assms by (intro spec_windows_Cons) auto
  have w1: "spec_windows ?s ?x1 = take ?s ?x1 # spec_windows ?s ?x2"
    using l1 by (intro spec_windows_Cons) auto
  have w2: "spec_windows ?s ?x2 = take ?s ?x2 # spec_windows ?s ?x3"
    using l2 by (intro spec_windows_Cons) auto
  have w: "spec_windows ?s xs = [take ?s xs, take ?s ?x1, take ?s ?x2]"
    unfolding w0 w1 w2 l3 spec_windows_Nil ..
  show ?thesis unfolding w using assms by simp
qed

lemma piece_ids_from_1: "piece_ids 1 k = map (\<lambda>j. Itoa (int j)) [1..<Suc k]"
proof -
  have "[1..<Suc k] = map Suc [0..<k]" by (simp add: map_Suc_upt del: upt_Suc)
  then show ?thesis by (simp add: piece_ids_def comp_def del: upt_Suc)
qed

lemma SplitIntoChunks_empty: "SplitIntoChunks H [] chunkSize = Some (Inr ([], []))"
  unfolding SplitIntoChunks_def by (subst SplitIntoChunks_loop.simps) simp

lemma SplitIntoChunks_negative:
  assumes "data \<noteq> []" "chunkSize < 0" "MinInt64 \<le> chunkSize"
  shows "SplitIntoChunks H data chunkSize = Some (Inl SliceBoundsOutOfRange)"
proof -
  have "wrap64 chunkSize = chunkSize" using assms by (intro wrap64_id) (auto simp: MinInt64_def)
  then show ?thesis using assms
    unfolding SplitIntoChunks_def by (subst SplitIntoChunks_loop.simps) (simp add: Let_def)
qed

lemma SplitIntoChunks_loop_zero:
  assumes ret: "SplitIntoChunks_loop H data chunkSize i n chunks hashes = Some r"
  shows "\<not> (chunkSize = 0 \<and> i = 0 \<and> data \<noteq> [])"
proof (rule SplitIntoChunks_loop.raw_induct
    [where P = "\<lambda>H data chunkSize i n chunks hashes r. \<not> (chunkSize = 0 \<and> i = 0 \<and> data \<noteq> [])", OF _ ret])
  fix loop :: "(byte list \<Rightarrow> byte list) \<Rightarrow> byte list \<Rightarrow> int \<Rightarrow> int \<Rightarrow> int \<Rightarrow>
      (string, byte list) gomap \<Rightarrow> (string, string) gomap \<Rightarrow> (panic + split_result) option"
  fix H' and data' :: "byte list" and cs' i' n' :: int and chunks' hashes' r'
  assume hyp: "\<And>H data chunkSize i n chunks hashes r.
      loop H data chunkSize i n chunks hashes = Some r \<Longrightarrow> \<not> (chunkSize = 0 \<and> i = 0 \<and> data \<noteq> [])"
  assume step: "(if i' < int (length data')
      then let end0 = wrap64 (i' + cs');
               end1 = if int (length data') < end0 then int (length data') else end0
           in if i' < 0 \<or> end1 < i' then Some (Inl SliceBoundsOutOfRange)
              else let chunk = take (nat (end1 - i')) (drop (nat i') data');
                       chunkKey = Itoa n'
                   in loop H' data' cs' (wrap64 (i' + cs')) (wrap64 (n' + 1))
                       (AList.update chunkKey chunk chunks')
                       (AList.update chunkKey (Sprintf_x (H' chunk)) hashes')
      else Some (Inr (chunks', hashes'))) = Some r'"
  show "\<not> (cs' = 0 \<and> i' = 0 \<and> data' \<noteq> [])"
  proof
    assume z: "cs' = 0 \<and> i' = 0 \<and> data' \<noteq> []"
    have w: "wrap64 0 = 0" by (simp add: wrap64_def)
    from step z w have "loop H' data' 0 0 (wrap64 (n' + 1)) (AList.update (Itoa n') [] chunks')
        (AList.update (Itoa n') (Sprintf_x (H' [])) hashes') = Some r'"
      by (simp add: Let_def)
    from hyp[OF this] z show False by simp
  qed
qed

lemma SplitIntoChunks_zero:
  "data \<noteq> [] \<Longrightarrow> SplitIntoChunks H data 0 = None"
  using SplitIntoChunks_loop_zero[of H data 0 0 1 "[]" "[]"]
  unfolding SplitIntoChunks_def by (cases "SplitIntoChunks_loop H data 0 0 1 [] []") auto

section \<open>Reassembly does not depend on the order of the entries\<close>

lemma sort_cong_mset: "mset xs = mset ys \<Longrightarrow> sort xs = sort ys"
  by (rule properties_for_sort) simp_all

lemma sort_map_sort_key: "sort (map f xs) = map f (sort_key f xs)"
  by (rule properties_for_sort) simp_all

lemma keys_mset_eq:
  assumes "distinct (map fst m)" "distinct (map fst m')" "map_of m = map_of m'"
  shows "mset (map fst m) = mset (map fst m')"
proof -
  have "set (map fst m) = dom (map_of m)" by (simp add: dom_map_of_conv_image_fst)
  also have "\<dots> = dom (map_of m')" using assms(3) by simp
  also have "\<dots> = set (map fst m')" by (simp add: dom_map_of_conv_image_fst)
  finally show ?thesis using assms(1,2) by (simp only: set_eq_iff_mset_eq_distinct)
qed

lemma ReassembleChunks_keys:
  "ReassembleChunks m =
     concat (map (\<lambda>n. index_bytes m (Itoa n)) (sort (map (\<lambda>k. fst (Atoi k)) (map fst m))))"
  by (simp add: ReassembleChunks_def case_prod_unfold comp_def)

lemma ReassembleChunks_cong:
  assumes "distinct (map fst m)" "distinct (map fst m')" "map_of m = map_of m'"
  shows "ReassembleChunks m = ReassembleChunks m'"
proof -
  have "mset (map (\<lambda>k. fst (Atoi k)) (map fst m)) = mset (map (\<lambda>k. fst (Atoi k)) (map fst m'))"
    using keys_mset_eq[OF assms] by (metis mset_map)
  then have "sort (map (\<lambda>k. fst (Atoi k)) (map fst m)) = sort (map (\<lambda>k. fst (Atoi k)) (map fst m'))"
    by (rule sort_cong_mset)
  moreover have "index_bytes m = index_bytes m'"
    using assms(3) by (simp add: index_bytes_def fun_eq_iff)
  ultimately show ?thesis by (simp add: ReassembleChunks_keys)
qed

lemma index_bytes_entry: "distinct (map fst m) \<Longrightarrow> (k, v) \<in> set m \<Longrightarrow> index_bytes m k = v"
  by (simp add: index_bytes_def)

lemma ReassembleChunks_canonical:
  assumes d: "distinct (map fst m)" and c: "\<forall>k\<in>fst ` set m. Itoa (fst (Atoi k)) = k"
  shows "ReassembleChunks m = concat (map snd (sort_key (\<lambda>(k, v). fst (Atoi k)) m))"
proof -
  let ?f = "\<lambda>(k, v). fst (Atoi k)"
  have key: "map (\<lambda>k. index_bytes m (Itoa k)) (map ?f (sort_key ?f m)) = map snd (sort_key ?f m)"
  proof (simp, intro ballI)
    fix e assume em: "e \<in> set m"
    obtain k v where e1: "e = (k, v)" by (cases e)
    have e: "e = (k, v)" "(k, v) \<in> set m" using e1 em by auto
    then have "Itoa (fst (Atoi k)) = k" using c by force
    then show "index_bytes m (Itoa (case e of (k, v) \<Rightarrow> fst (Atoi k))) = snd e"
      using e index_bytes_entry[OF d e(2)] by simp
  qed
  show ?thesis
    unfolding ReassembleChunks_def Let_def sort_map_sort_key key ..
qed

section \<open>Claims about the chunker\<close>

text \<open>
  Unfolding every definition of the model evaluates it on a concrete input.
\<close>

lemmas eval_simps =
  SplitIntoChunks_def SplitIntoChunks_loop.simps ReassembleChunks_def Let_def wrap64_def
  Itoa_def FormatUint.simps digit_char_def Sprintf_x_def hex_digit_def index_bytes_def
  Atoi_def ParseInt_def ParseUint_def is_digit_def maxUint64_def MaxInt64_def MinInt64_def

text \<open>
  Claim C1.  For every payload \<open>p\<close> and every positive chunk size \<open>s\<close>,
  \<^verbatim>\<open>SplitIntoChunks\<close> returns, and \<^verbatim>\<open>ReassembleChunks\<close> of the piece map it returns is
  \<open>p\<close>, byte for byte, in whatever order \<^verbatim>\<open>range\<close> visits the entries of that map: every
  list \<open>m\<close> of the same entries gives \<open>p\<close>.  The payload and the chunk size range over the
  values a Go program can hold: \<open>s\<close> is an \<^verbatim>\<open>int\<close> (below \<open>2^63\<close>) and \<open>p\<close> is a slice that
  fits the address space (at most \<open>2^62\<close> bytes), so that no addition in the loop wraps
  around.
\<close>

theorem chunk_round_trip:
  assumes "0 < s" "s < 2 ^ 63" "length p \<le> 2 ^ 62"
  shows "\<exists>pieces digests. SplitIntoChunks H p s = Some (Inr (pieces, digests))
           \<and> distinct (map fst pieces)
           \<and> (\<forall>m. distinct (map fst m) \<and> map_of m = map_of pieces \<longrightarrow> ReassembleChunks m = p)"
proof -
  let ?ws = "spec_windows (nat s) p"
  let ?pieces = "zip (piece_ids 1 (length ?ws)) ?ws"
  let ?digests = "zip (piece_ids 1 (length ?ws)) (map (\<lambda>w. Sprintf_x (H w)) ?ws)"
  have "length ?ws \<le> 2 ^ 62" using length_spec_windows_le[of "nat s" p] assms(3) by linarith
  then have bound: "int (length ?ws) \<le> 2 ^ 62"
    by (simp add: of_nat_le_iff[symmetric] del: of_nat_le_iff)
  have "distinct (piece_ids 1 (length ?ws))"
    using bound by (intro distinct_piece_ids) (auto simp: MinInt64_def MaxInt64_def)
  then have d: "distinct (map fst ?pieces)" by (simp add: length_piece_ids)
  have "ReassembleChunks ?pieces = concat ?ws"
    using bound by (intro ReassembleChunks_zip) (auto simp: MinInt64_def MaxInt64_def)
  then have r: "ReassembleChunks ?pieces = p"
    using assms(1) by (simp add: concat_spec_windows)
  have any: "\<forall>m. distinct (map fst m) \<and> map_of m = map_of ?pieces \<longrightarrow> ReassembleChunks m = p"
  proof (intro allI impI)
    fix m :: "(string, byte list) gomap"
    assume m: "distinct (map fst m) \<and> map_of m = map_of ?pieces"
    then have "ReassembleChunks m = ReassembleChunks ?pieces"
      using d by (intro ReassembleChunks_cong) auto
    then show "ReassembleChunks m = p" using r by simp
  qed
  have split: "SplitIntoChunks H p s = Some (Inr (?pieces, ?digests))"
    by (rule SplitIntoChunks_pos[OF assms])
  show ?thesis by (intro exI[of _ ?pieces] exI[of _ ?digests] conjI split d any)
qed

text \<open>
  The round trip at the payload \<open>[1, 2, 3, 4, 5]\<close> with chunk size 2, where the pieces are
  visited in the order 2, 3, 1.
\<close>

theorem chunk_round_trip_witness:
  "(0::int) < 2 \<and> (2::int) < 2 ^ 63 \<and> length [1, 2, 3, 4, 5 :: byte] \<le> 2 ^ 62
   \<and> SplitIntoChunks rev [1, 2, 3, 4, 5] 2 =
        Some (Inr ([(''1'', [1, 2]), (''2'', [3, 4]), (''3'', [5])],
                   [(''1'', ''0201''), (''2'', ''0403''), (''3'', ''05'')]))
   \<and> ReassembleChunks [(''2'', [3, 4]), (''3'', [5]), (''1'', [1, 2])] = [1, 2, 3, 4, 5]"
proof -
  let ?p = "[1, 2, 3, 4, 5 :: byte]"
  let ?pieces = "[(''1'', [1, 2]), (''2'', [3, 4]), (''3'', [5 :: byte])]"
  let ?m = "[(''2'', [3, 4]), (''3'', [5]), (''1'', [1, 2 :: byte])]"
  have h: "(0::int) < 2" "(2::int) < 2 ^ 63" "length ?p \<le> 2 ^ 62" by simp_all
  have e: "SplitIntoChunks rev ?p 2 =
        Some (Inr (?pieces, [(''1'', ''0201''), (''2'', ''0403''), (''3'', ''05'')]))"
    by (simp add: eval_simps)
  have m: "distinct (map fst ?m) \<and> map_of ?m = map_of ?pieces" by (auto simp: fun_eq_iff)
  obtain pieces digests where
    a: "SplitIntoChunks rev ?p 2 = Some (Inr (pieces, digests))" and
    b: "\<forall>m. distinct (map fst m) \<and> map_of m = map_of pieces \<longrightarrow> ReassembleChunks m = ?p"
    using chunk_round_trip[OF h, of rev] by (elim exE conjE) (rule that, assumption+)
  have "pieces = ?pieces" using a e by simp
  then have "ReassembleChunks ?m = ?p" using b m by (simp only:)
  then show ?thesis using h e by (intro conjI)
qed

text \<open>
  Claim C3.  For every payload \<open>p\<close> and every positive chunk size \<open>s\<close> (in the ranges of
  claim C1), \<^verbatim>\<open>SplitIntoChunks\<close> returns pieces whose identifiers are \<open>1, 2, \<dots>\<close> in
  decimal, pairwise distinct; piece number \<open>j + 1\<close> is the window of \<open>s\<close> bytes that starts
  at offset \<open>j * s\<close>, so the pieces walk \<open>p\<close> from left to right; every piece but the last
  has exactly \<open>s\<close> bytes; the last piece is not empty and has at most \<open>s\<close> bytes; the
  digests are, identifier by identifier, the hex-printed hash of the piece; an empty payload
  gives two empty maps; and a payload of 25,000,000 bytes with \<open>s = 10,000,000\<close> gives the
  three pieces 1, 2, 3 of 10,000,000, 10,000,000 and 5,000,000 bytes and three digests.
\<close>

theorem split_pieces:
  assumes "0 < s" "s < 2 ^ 63" "length p \<le> 2 ^ 62"
  shows "\<exists>pieces digests. SplitIntoChunks H p s = Some (Inr (pieces, digests))
     \<and> map fst pieces = map (\<lambda>j. Itoa (int j)) [1..<Suc (length pieces)]
     \<and> distinct (map fst pieces)
     \<and> (\<forall>j<length pieces. snd (pieces ! j) = take (nat s) (drop (j * nat s) p))
     \<and> concat (map snd pieces) = p
     \<and> (\<forall>j. Suc j < length pieces \<longrightarrow> length (snd (pieces ! j)) = nat s)
     \<and> (pieces \<noteq> [] \<longrightarrow> snd (last pieces) \<noteq> [] \<and> length (snd (last pieces)) \<le> nat s)
     \<and> digests = map (\<lambda>(k, w). (k, Sprintf_x (H w))) pieces
     \<and> (p = [] \<longrightarrow> pieces = [] \<and> digests = [])
     \<and> (length p = 25000000 \<and> s = 10000000 \<longrightarrow>
          map (\<lambda>(k, w). (k, length w)) pieces = [(''1'', 10000000), (''2'', 10000000), (''3'', 5000000)]
          \<and> map fst digests = [''1'', ''2'', ''3''])"
proof -
  let ?ws = "spec_windows (nat s) p"
  let ?ks = "piece_ids 1 (length ?ws)"
  let ?pieces = "zip ?ks ?ws"
  let ?digests = "zip ?ks (map (\<lambda>w. Sprintf_x (H w)) ?ws)"
  have pos: "0 < nat s" using assms(1) by simp
  have lk: "length ?ks = length ?ws" by (simp add: length_piece_ids)
  have lp: "length ?pieces = length ?ws" by (simp add: length_piece_ids)
  have fstp: "map fst ?pieces = ?ks" using lk by simp
  have sndp: "map snd ?pieces = ?ws" using lk by simp
  have "length ?ws \<le> 2 ^ 62" using length_spec_windows_le[of "nat s" p] assms(3) by linarith
  then have "int (length ?ws) \<le> 2 ^ 62" by (simp add: of_nat_le_iff[symmetric] del: of_nat_le_iff)
  then have dist: "distinct ?ks"
    by (intro distinct_piece_ids) (auto simp: MinInt64_def MaxInt64_def)
  have c1: "SplitIntoChunks H p s = Some (Inr (?pieces, ?digests))"
    by (rule SplitIntoChunks_pos[OF assms])
  have c2: "map fst ?pieces = map (\<lambda>j. Itoa (int j)) [1..<Suc (length ?pieces)]"
    unfolding fstp lp by (rule piece_ids_from_1)
  have c3: "distinct (map fst ?pieces)" unfolding fstp by (rule dist)
  have c4: "\<forall>j<length ?pieces. snd (?pieces ! j) = take (nat s) (drop (j * nat s) p)"
    using nth_spec_windows[OF pos, of _ p] by (simp add: length_piece_ids)
  have c5: "concat (map snd ?pieces) = p" unfolding sndp by (rule concat_spec_windows[OF pos])
  have c6: "\<forall>j. Suc j < length ?pieces \<longrightarrow> length (snd (?pieces ! j)) = nat s"
    using spec_windows_full[OF pos, of _ p] by (simp add: length_piece_ids)
  have c7: "?pieces \<noteq> [] \<longrightarrow> snd (last ?pieces) \<noteq> [] \<and> length (snd (last ?pieces)) \<le> nat s"
  proof
    assume ne: "?pieces \<noteq> []"
    then have "snd (last ?pieces) = last (map snd ?pieces)" by (simp add: last_map)
    also have "\<dots> = last ?ws" unfolding sndp ..
    finally have "snd (last ?pieces) \<in> set ?ws" using ne lp by (metis last_in_set length_0_conv)
    then show "snd (last ?pieces) \<noteq> [] \<and> length (snd (last ?pieces)) \<le> nat s"
      using spec_windows_pieces[OF pos] by blast
  qed
  have c8: "?digests = map (\<lambda>(k, w). (k, Sprintf_x (H w))) ?pieces"
    by (simp add: zip_map2 case_prod_beta)
  have c9: "p = [] \<longrightarrow> ?pieces = [] \<and> ?digests = []"
    by (simp add: spec_windows_Nil piece_ids_def)
  have c10: "length p = 25000000 \<and> s = 10000000 \<longrightarrow>
          map (\<lambda>(k, w). (k, length w)) ?pieces = [(''1'', 10000000), (''2'', 10000000), (''3'', 5000000)]
          \<and> map fst ?digests = [''1'', ''2'', ''3'']"
  proof
    assume a: "length p = 25000000 \<and> s = 10000000"
    then have ns: "nat s = 10000000" by simp
    have ml: "map length ?ws = [10000000, 10000000, 5000000]"
      unfolding ns using a by (intro spec_windows_25M) simp
    have "length (map length ?ws) = 3" unfolding ml by simp
    then have l3: "length ?ws = 3" by simp
    have ks: "?ks = [''1'', ''2'', ''3'']"
      unfolding l3 by (simp add: piece_ids_def Itoa_def FormatUint.simps digit_char_def upt_rec)
    have "map (\<lambda>(k, w). (k, length w)) ?pieces = zip ?ks (map length ?ws)"
      by (simp add: zip_map2 case_prod_beta)
    then show "map (\<lambda>(k, w). (k, length w)) ?pieces = [(''1'', 10000000), (''2'', 10000000), (''3'', 5000000)]
          \<and> map fst ?digests = [''1'', ''2'', ''3'']"
      unfolding ml using ks lk by simp
  qed
  show ?thesis
    by (intro exI[of _ ?pieces] exI[of _ ?digests] conjI c1 c2 c3 c4 c5 c6 c7 c8 c9 c10)
qed

text \<open>
  The statement at a payload of 25,000,000 zero bytes with chunk size 10,000,000, and the
  model evaluated at \<open>[1, 2, 3, 4, 5]\<close> and at the empty payload with chunk size 2.
\<close>

theorem split_pieces_witness:
  "(\<exists>pieces digests.
      SplitIntoChunks rev (replicate 25000000 0) 10000000 = Some (Inr (pieces, digests))
      \<and> map (\<lambda>(k, w). (k, length w)) pieces = [(''1'', 10000000), (''2'', 10000000), (''3'', 5000000)]
      \<and> map fst digests = [''1'', ''2'', ''3''])
   \<and> SplitIntoChunks rev [1, 2, 3, 4, 5] 2 =
        Some (Inr ([(''1'', [1, 2]), (''2'', [3, 4]), (''3'', [5])],
                   [(''1'', ''0201''), (''2'', ''0403''), (''3'', ''05'')]))
   \<and> SplitIntoChunks rev [] 2 = Some (Inr ([], []))"
proof -
  have h1: "(0::int) < 10000000" "(10000000::int) < 2 ^ 63" by simp_all
  have h2: "length (replicate 25000000 (0::byte)) \<le> 2 ^ 62" by (simp only: length_replicate) simp
  have h3: "length (replicate 25000000 (0::byte)) = 25000000 \<and> (10000000::int) = 10000000"
    by (simp only: length_replicate simp_thms)
  obtain pieces digests where
    a: "SplitIntoChunks rev (replicate 25000000 0) 10000000 = Some (Inr (pieces, digests))" and
    b: "length (replicate 25000000 (0::byte)) = 25000000 \<and> (10000000::int) = 10000000 \<longrightarrow>
          map (\<lambda>(k, w). (k, length w)) pieces = [(''1'', 10000000), (''2'', 10000000), (''3'', 5000000)]
          \<and> map fst digests = [''1'', ''2'', ''3'']"
    using split_pieces[OF h1 h2, of rev] by (elim exE conjE) (rule that, assumption+)
  have big: "\<exists>pieces digests.
      SplitIntoChunks rev (replicate 25000000 0) 10000000 = Some (Inr (pieces, digests))
      \<and> map (\<lambda>(k, w). (k, length w)) pieces = [(''1'', 10000000), (''2'', 10000000), (''3'', 5000000)]
      \<and> map fst digests = [''1'', ''2'', ''3'']"
    by (intro exI[of _ pieces] exI[of _ digests] conjI a conjunct1[OF mp[OF b h3]] conjunct2[OF mp[OF b h3]])
  have small: "SplitIntoChunks rev [1, 2, 3, 4, 5] 2 =
        Some (Inr ([(''1'', [1, 2]), (''2'', [3, 4]), (''3'', [5])],
                   [(''1'', ''0201''), (''2'', ''0403''), (''3'', ''05'')]))"
    by (simp add: eval_simps)
  have empty: "SplitIntoChunks rev [] 2 = Some (Inr ([], []))"
    by (simp add: eval_simps)
  show ?thesis using big small empty by (intro conjI)
qed

text \<open>
  Claim C5, as amended.  \<^verbatim>\<open>SplitIntoChunks\<close> has no error result and does not check the
  chunk size.  With a chunk size that is zero or negative, an empty payload returns the two
  empty maps; a payload that is not empty never returns normally: a negative size panics on
  the first slice expression, and size zero never leaves the loop.
\<close>

theorem split_nonpositive_size:
  assumes "s \<le> 0" "MinInt64 \<le> s"
  shows "(p = [] \<longrightarrow> SplitIntoChunks H p s = Some (Inr ([], [])))
       \<and> (p \<noteq> [] \<and> s < 0 \<longrightarrow> SplitIntoChunks H p s = Some (Inl SliceBoundsOutOfRange))
       \<and> (p \<noteq> [] \<and> s = 0 \<longrightarrow> SplitIntoChunks H p s = None)"
  using assms SplitIntoChunks_empty[of H s] SplitIntoChunks_negative[of p s H] SplitIntoChunks_zero[of p H]
  by auto

text \<open>
  The three cases at the payloads \<open>[]\<close> and \<open>[7]\<close>.
\<close>

theorem split_nonpositive_size_witness:
  "SplitIntoChunks rev [] (- 1) = Some (Inr ([], []))
   \<and> SplitIntoChunks rev [7] (- 1) = Some (Inl SliceBoundsOutOfRange)
   \<and> SplitIntoChunks rev [7] 0 = None"
  using split_nonpositive_size[of "- 1" "[]" rev] split_nonpositive_size[of "- 1" "[7]" rev]
    split_nonpositive_size[of 0 "[7]" rev]
  by (simp add: MinInt64_def)

text \<open>
  Claim C5 as stated fails: with chunk size 0 the empty payload is split normally, and a
  one-byte payload keeps the loop running for ever.
\<close>

theorem split_nonpositive_size_counterexample:
  "SplitIntoChunks rev [] 0 = Some (Inr ([], [])) \<and> SplitIntoChunks rev [7] 0 = None"
  by (simp add: SplitIntoChunks_empty SplitIntoChunks_zero)

section \<open>Claims about reassembly\<close>

text \<open>
  Claim C7.  \<^verbatim>\<open>ReassembleChunks\<close> depends only on the mapping from keys to bytes: two
  piece maps with the same entries, visited by \<^verbatim>\<open>range\<close> in any two orders, give the same
  bytes.  Its result is the concatenation of the bytes looked up for the keys' numbers in
  ascending numeric order; when every key is the decimal form of its number, that is the
  concatenation of the entries' bytes in ascending order of the numeric value of their keys.
  The order is numeric and not lexicographic: the bytes under \<open>"9"\<close> come before the bytes
  under \<open>"10"\<close>, although \<open>"10"\<close> is the smaller string.
\<close>

theorem reassemble_numeric_order:
  "(distinct (map fst m) \<and> distinct (map fst m') \<and> map_of m = map_of m' \<longrightarrow>
      ReassembleChunks m = ReassembleChunks m')
   \<and> ReassembleChunks m =
       concat (map (\<lambda>n. index_bytes m (Itoa n)) (sort (map (\<lambda>(k, v). fst (Atoi k)) m)))
   \<and> (distinct (map fst m) \<and> (\<forall>k\<in>fst ` set m. Itoa (fst (Atoi k)) = k) \<longrightarrow>
      sorted (map (\<lambda>(k, v). fst (Atoi k)) (sort_key (\<lambda>(k, v). fst (Atoi k)) m)) \<and>
      ReassembleChunks m = concat (map snd (sort_key (\<lambda>(k, v). fst (Atoi k)) m)))
   \<and> ReassembleChunks [(''10'', a), (''9'', b)] = b @ a
   \<and> ReassembleChunks [(''9'', b), (''10'', a)] = b @ a
   \<and> (''10'' :: string) < ''9''"
proof -
  have 1: "distinct (map fst m) \<and> distinct (map fst m') \<and> map_of m = map_of m' \<longrightarrow>
      ReassembleChunks m = ReassembleChunks m'"
    using ReassembleChunks_cong by blast
  have 2: "ReassembleChunks m =
       concat (map (\<lambda>n. index_bytes m (Itoa n)) (sort (map (\<lambda>(k, v). fst (Atoi k)) m)))"
    by (simp add: ReassembleChunks_def)
  have 3: "distinct (map fst m) \<and> (\<forall>k\<in>fst ` set m. Itoa (fst (Atoi k)) = k) \<longrightarrow>
      sorted (map (\<lambda>(k, v). fst (Atoi k)) (sort_key (\<lambda>(k, v). fst (Atoi k)) m)) \<and>
      ReassembleChunks m = concat (map snd (sort_key (\<lambda>(k, v). fst (Atoi k)) m))"
    using ReassembleChunks_canonical[of m] by simp
  have 4: "ReassembleChunks [(''10'', a), (''9'', b)] = b @ a"
    by (simp add: eval_simps)
  have 5: "ReassembleChunks [(''9'', b), (''10'', a)] = b @ a"
    by (simp add: eval_simps)
  have 6: "(''10'' :: string) < ''9''"
    by (simp add: less_char_def)
  show ?thesis by (intro conjI 1 2 3 4 5 6)
qed

text \<open>
  The statement at a map with the keys 2, 10 and 1, listed in two different orders.
\<close>

theorem reassemble_numeric_order_witness:
  "ReassembleChunks [(''2'', [3, 4]), (''10'', [9]), (''1'', [1, 2])] =
     ReassembleChunks [(''1'', [1, 2]), (''2'', [3, 4]), (''10'', [9])]
   \<and> ReassembleChunks [(''2'', [3, 4]), (''10'', [9]), (''1'', [1, 2])] = [1, 2, 3, 4, 9]
   \<and> ReassembleChunks [(''2'', [3, 4]), (''10'', [9]), (''1'', [1, 2])] =
       concat (map snd (sort_key (\<lambda>(k, v). fst (Atoi k)) [(''2'', [3, 4]), (''10'', [9]), (''1'', [1, 2 :: byte])]))"
proof -
  let ?m = "[(''2'', [3, 4]), (''10'', [9]), (''1'', [1, 2 :: byte])]"
  let ?m' = "[(''1'', [1, 2]), (''2'', [3, 4]), (''10'', [9 :: byte])]"
  have h1: "distinct (map fst ?m) \<and> distinct (map fst ?m') \<and> map_of ?m = map_of ?m'"
    by (auto simp: fun_eq_iff)
  have h2: "distinct (map fst ?m) \<and> (\<forall>k\<in>fst ` set ?m. Itoa (fst (Atoi k)) = k)"
    by (simp add: eval_simps)
  have e: "ReassembleChunks ?m = [1, 2, 3, 4, 9]"
    by (simp add: eval_simps)
  note t = reassemble_numeric_order[of ?m ?m']
  show ?thesis
    using mp[OF conjunct1[OF t] h1] conjunct2[OF mp[OF conjunct1[OF conjunct2[OF conjunct2[OF t]]] h2]] e
    by (intro conjI)
qed

lemma Atoi_range: "MinInt64 \<le> fst (Atoi s) \<and> fst (Atoi s) \<le> MaxInt64"
  by (auto simp: Atoi_def ParseInt_def Let_def MinInt64_def MaxInt64_def
           split: prod.splits option.splits num_error.splits)

lemma Atoi_error_value:
  "(snd (Atoi s) = Some ErrSyntax \<longrightarrow> fst (Atoi s) = 0)
   \<and> (snd (Atoi s) = Some ErrRange \<longrightarrow> fst (Atoi s) = MaxInt64 \<or> fst (Atoi s) = MinInt64)"
  by (auto simp: Atoi_def ParseInt_def Let_def split: prod.splits option.splits num_error.splits)

lemma Itoa_Atoi_canonical:
  assumes "MinInt64 \<le> n" "n \<le> MaxInt64" "Itoa n = k"
  shows "Itoa (fst (Atoi k)) = k"
  using Atoi_Itoa[OF assms(1,2)] assms(3) by auto

lemma index_bytes_update_other:
  "k' \<noteq> k \<Longrightarrow> index_bytes (AList.update k v m) k' = index_bytes m k'"
  by (simp add: index_bytes_def update_conv')

lemma ReassembleChunks_update_noncanonical:
  assumes "Itoa (fst (Atoi k)) \<noteq> k"
  shows "ReassembleChunks (AList.update k v m) = ReassembleChunks (AList.update k v' m)"
proof -
  let ?ns = "sort (map (\<lambda>k. fst (Atoi k)) (map fst (AList.update k v m)))"
  have keys: "map fst (AList.update k v m) = map fst (AList.update k v' m)"
    by (simp add: update_keys)
  have "index_bytes (AList.update k v m) (Itoa n) = index_bytes (AList.update k v' m) (Itoa n)"
    if "n \<in> set ?ns" for n
  proof -
    from that obtain k' where "n = fst (Atoi k')" by auto
    then have "MinInt64 \<le> n" "n \<le> MaxInt64" using Atoi_range[of k'] by auto
    then have "Itoa n \<noteq> k" using Itoa_Atoi_canonical assms by blast
    then show ?thesis by (simp add: index_bytes_update_other)
  qed
  then have eq: "map (\<lambda>n. index_bytes (AList.update k v m) (Itoa n)) ?ns =
             map (\<lambda>n. index_bytes (AList.update k v' m) (Itoa n)) ?ns"
    by (intro map_cong) auto
  show ?thesis unfolding ReassembleChunks_keys keys[symmetric] eq ..
qed

lemma sorted_twice:
  "sorted l \<Longrightarrow> 2 \<le> count_list l (x::int) \<Longrightarrow> \<exists>xs ys. l = xs @ x # x # ys"
proof (induction l)
  case Nil
  then show ?case by simp
next
  case (Cons y l)
  show ?case
  proof (cases "y = x")
    case True
    then have "1 \<le> count_list l x" using Cons.prems by simp
    then have xin: "x \<in> set l" using count_list_0_iff[of l x] by auto
    then obtain z l' where l: "l = z # l'" by (cases l) auto
    have "x \<le> z" using Cons.prems l True by simp
    moreover have "z \<le> x" using xin Cons.prems l by auto
    ultimately have "z = x" by simp
    then have "y # l = [] @ x # x # l'" using True l by simp
    then show ?thesis by blast
  next
    case False
    then have "2 \<le> count_list l x" using Cons.prems by simp
    then obtain xs ys where "l = xs @ x # x # ys" using Cons.IH Cons.prems by auto
    then have "y # l = (y # xs) @ x # x # ys" by simp
    then show ?thesis by blast
  qed
qed

lemma count_list_sort: "count_list (sort l) x = count_list l x"
  by (metis count_mset mset_sort)

lemma count_two_keys:
  assumes "distinct ks" "k1 \<in> set ks" "k2 \<in> set ks" "k1 \<noteq> k2" "g k1 = n" "g k2 = n"
  shows "2 \<le> count_list (map g ks) n"
proof -
  obtain xs ys where ks: "ks = xs @ k1 # ys" using assms(2) by (auto dest: split_list)
  then have "k2 \<in> set xs \<or> k2 \<in> set ys" using assms(3,4) by auto
  then have "n \<in> set (map g xs) \<or> n \<in> set (map g ys)" using assms(6) by auto
  then have "1 \<le> count_list (map g xs) n \<or> 1 \<le> count_list (map g ys) n"
    using count_list_0_iff[of "map g xs" n] count_list_0_iff[of "map g ys" n] by fastforce
  then show ?thesis using ks assms(5) by auto
qed

lemma Atoi_1: "Atoi ''1'' = (1, None)" "Atoi ''01'' = (1, None)" "Itoa 1 = ''1''"
  by (simp_all add: eval_simps)

lemma ReassembleChunks_twice:
  assumes "distinct (map fst m)" "map_of m ''1'' = Some a" "''01'' \<in> fst ` set m"
  shows "\<exists>pre post. ReassembleChunks m = pre @ a @ a @ post"
proof -
  let ?g = "\<lambda>k. fst (Atoi k)"
  let ?F = "\<lambda>n. index_bytes m (Itoa n)"
  have in1: "''1'' \<in> set (map fst m)" using assms(2) by (auto dest: map_of_SomeD intro: rev_image_eqI)
  have in2: "''01'' \<in> set (map fst m)" using assms(3) by simp
  have "2 \<le> count_list (map ?g (map fst m)) 1"
    by (rule count_two_keys[OF assms(1) in1 in2]) (simp_all add: Atoi_1)
  then have "2 \<le> count_list (sort (map ?g (map fst m))) 1" by (simp add: count_list_sort)
  then obtain xs ys where s: "sort (map ?g (map fst m)) = xs @ 1 # 1 # ys"
    using sorted_twice[of "sort (map ?g (map fst m))" 1] by auto
  have F1: "?F 1 = a" using assms(2) by (simp add: index_bytes_def Atoi_1)
  have "ReassembleChunks m = concat (map ?F xs) @ a @ a @ concat (map ?F ys)"
    unfolding ReassembleChunks_keys s using F1 by simp
  then show ?thesis by blast
qed

text \<open>
  Claim C10, as amended.  \<^verbatim>\<open>ReassembleChunks\<close> returns bytes and no error, whatever the
  keys are.  The bytes stored under a key that is not the decimal form of the number it parses
  to (such as \<open>"01"\<close> or \<open>"abc"\<close>) never reach the output: replacing them by any other
  bytes leaves the result unchanged.  When both \<open>"1"\<close> and \<open>"01"\<close> are keys, the bytes
  stored under \<open>"1"\<close> appear twice in a row.  The reason is that every key is parsed with
  the error dropped and looked up again under the decimal form of the number: a syntax error
  leaves the number 0, and a range error leaves the nearest 64-bit integer, not 0.
\<close>

theorem reassemble_malformed_keys:
  "(Itoa (fst (Atoi k)) \<noteq> k \<longrightarrow>
      ReassembleChunks (AList.update k v m) = ReassembleChunks (AList.update k v' m))
   \<and> (distinct (map fst m) \<and> map_of m ''1'' = Some a \<and> ''01'' \<in> fst ` set m \<longrightarrow>
      (\<exists>pre post. ReassembleChunks m = pre @ a @ a @ post))
   \<and> (snd (Atoi k) = Some ErrSyntax \<longrightarrow> fst (Atoi k) = 0)
   \<and> (snd (Atoi k) = Some ErrRange \<longrightarrow> fst (Atoi k) = MaxInt64 \<or> fst (Atoi k) = MinInt64)
   \<and> ReassembleChunks [(''01'', a)] = []
   \<and> ReassembleChunks [(''abc'', a)] = []
   \<and> ReassembleChunks [(''1'', a), (''01'', b)] = a @ a"
proof -
  have 1: "Itoa (fst (Atoi k)) \<noteq> k \<longrightarrow>
      ReassembleChunks (AList.update k v m) = ReassembleChunks (AList.update k v' m)"
    using ReassembleChunks_update_noncanonical by blast
  have 2: "distinct (map fst m) \<and> map_of m ''1'' = Some a \<and> ''01'' \<in> fst ` set m \<longrightarrow>
      (\<exists>pre post. ReassembleChunks m = pre @ a @ a @ post)"
    using ReassembleChunks_twice[of m a] by blast
  note 3 = conjunct1[OF Atoi_error_value[of k]]
  note 4 = conjunct2[OF Atoi_error_value[of k]]
  have 5: "ReassembleChunks [(''01'', a)] = []" by (simp add: eval_simps)
  have 6: "ReassembleChunks [(''abc'', a)] = []" by (simp add: eval_simps)
  have 7: "ReassembleChunks [(''1'', a), (''01'', b)] = a @ a" by (simp add: eval_simps)
  show ?thesis by (intro conjI 1 2 3 4 5 6 7)
qed

text \<open>
  The statement at the map with the keys \<open>"1"\<close> and \<open>"01"\<close>, and at the keys \<open>"abc"\<close>
  and \<open>"9223372036854775808"\<close>.
\<close>

theorem reassemble_malformed_keys_witness:
  "ReassembleChunks [(''1'', [1]), (''01'', [2])] = ReassembleChunks [(''1'', [1]), (''01'', [3])]
   \<and> (\<exists>pre post. ReassembleChunks [(''1'', [1]), (''01'', [2])] = pre @ [1] @ [1] @ post)
   \<and> fst (Atoi ''abc'') = 0
   \<and> fst (Atoi ''9223372036854775808'') = MaxInt64"
proof -
  let ?m = "[(''1'', [1]), (''01'', [2 :: byte])]"
  have h1: "Itoa (fst (Atoi ''01'')) \<noteq> ''01''" by (simp add: eval_simps)
  have h2: "distinct (map fst ?m) \<and> map_of ?m ''1'' = Some [1] \<and> ''01'' \<in> fst ` set ?m" by simp
  have h3: "snd (Atoi ''abc'') = Some ErrSyntax" by (simp add: eval_simps)
  have h4: "snd (Atoi ''9223372036854775808'') = Some ErrRange" by (simp add: eval_simps)
  have n4: "fst (Atoi ''9223372036854775808'') \<noteq> MinInt64" by (simp add: eval_simps)
  note t1 = reassemble_malformed_keys[of "''01''" "[2]" ?m "[3]" "[1]"]
  note t3 = reassemble_malformed_keys[of "''abc''" "[]" "[]" "[]" "[]"]
  note t4 = reassemble_malformed_keys[of "''9223372036854775808''" "[]" "[]" "[]" "[]"]
  have a: "ReassembleChunks (AList.update ''01'' [2] ?m) = ReassembleChunks (AList.update ''01'' [3] ?m)"
    using t1 h1 by blast
  have b: "\<exists>pre post. ReassembleChunks ?m = pre @ [1] @ [1] @ post"
    using t1 h2 by blast
  have c: "fst (Atoi ''abc'') = 0" using t3 h3 by blast
  have d: "fst (Atoi ''9223372036854775808'') = MaxInt64" using t4 h4 n4 by blast
  show ?thesis using a b c d by simp
qed

text \<open>
  Claim C10 as stated fails where it says that a parse error leaves the number 0: the key
  \<open>"9223372036854775808"\<close> is out of range, parses to the largest \<^verbatim>\<open>int\<close>, and makes the
  bytes stored under \<open>"9223372036854775807"\<close> appear a second time.
\<close>

theorem reassemble_malformed_keys_counterexample:
  "Atoi ''9223372036854775808'' = (9223372036854775807, Some ErrRange)
   \<and> ReassembleChunks [(''9223372036854775808'', [1]), (''9223372036854775807'', [2])] = [2, 2]"
  by (simp add: eval_simps)

section \<open>Claims about the cipher\<close>

lemma aes_NewCipher_32: "length key = 32 \<Longrightarrow> aes_NewCipher key = Inr key"
  by (simp add: aes_NewCipher_def)

lemma gcm_contract_Seal:
  "gcm_contract g \<Longrightarrow> Seal g key nonce p = Some c \<Longrightarrow>
   Open g key nonce c = Some p \<and> length c = length p + 16"
  unfolding gcm_contract_def by blast

lemma gcm_contract_Open:
  "gcm_contract g \<Longrightarrow> Open g key nonce c = Some p \<Longrightarrow> length c = length p + 16"
  unfolding gcm_contract_def by blast

lemma gcm_contract_sample: "gcm_contract sample_gcm"
proof -
  have tag: "length (sample_tag key nonce) = 16" for key nonce
    by (simp add: sample_tag_def)
  have inv: "map (\<lambda>b. b - 1) (map (\<lambda>b. b + 1) p) = p" for p :: "byte list"
    by (induction p) simp_all
  show ?thesis
    unfolding gcm_contract_def sample_gcm_def
    by (auto simp: tag inv comp_def split: if_splits)
qed

lemma EncryptData_returns:
  assumes "length key = 32" "12 \<le> length rnd" "Seal g key (take 12 rnd) p = Some c"
  shows "EncryptData g rnd p key = Inr (take 12 rnd @ c)"
  using assms by (simp add: EncryptData_def aes_NewCipher_32)

lemma DecryptData_envelope:
  assumes "length key = 32" "length nonce = 12" "Open g key nonce c = Some p"
  shows "DecryptData g (nonce @ c) key = Inr p"
  using assms by (simp add: DecryptData_def aes_NewCipher_32)

text \<open>
  Claim C2.  For every plaintext \<open>p\<close> and every 32-byte key, with the 12 random bytes of
  the nonce given as an input, \<^verbatim>\<open>EncryptData\<close> returns an envelope and
  \<^verbatim>\<open>DecryptData\<close> of that envelope under the same key returns \<open>p\<close>.  AES-GCM itself is
  the library's: it is any \<open>g\<close> that keeps the contract of GCM, and \<open>p\<close> is a plaintext
  that \<^verbatim>\<open>Seal\<close> accepts.
\<close>

theorem encrypt_decrypt_round_trip:
  assumes "gcm_contract g" "length key = 32" "12 \<le> length rnd"
    and "Seal g key (take 12 rnd) p \<noteq> None"
  shows "\<exists>env. EncryptData g rnd p key = Inr env \<and> DecryptData g env key = Inr p"
proof -
  obtain c where c: "Seal g key (take 12 rnd) p = Some c" using assms(4) by auto
  have "Open g key (take 12 rnd) c = Some p" using gcm_contract_Seal[OF assms(1) c] by simp
  then have "DecryptData g (take 12 rnd @ c) key = Inr p"
    using assms(2,3) by (intro DecryptData_envelope) auto
  then show ?thesis using EncryptData_returns[OF assms(2,3) c] by simp
qed

text \<open>
  The round trip of the plaintext \<open>[65, 66, 67]\<close> under a key of 32 bytes, with the sample
  AEAD.
\<close>

theorem encrypt_decrypt_round_trip_witness:
  "gcm_contract sample_gcm \<and> length (replicate 32 (7::byte)) = 32
   \<and> 12 \<le> length [1, 2, 3, 4, 5, 6, 7, 8, 9, 10, 11, 12 :: byte]
   \<and> Seal sample_gcm (replicate 32 7) (take 12 [1, 2, 3, 4, 5, 6, 7, 8, 9, 10, 11, 12]) [65, 66, 67] \<noteq> None
   \<and> (\<exists>env. EncryptData sample_gcm [1, 2, 3, 4, 5, 6, 7, 8, 9, 10, 11, 12] [65, 66, 67] (replicate 32 7) = Inr env
         \<and> DecryptData sample_gcm env (replicate 32 7) = Inr [65, 66, 67])"
proof -
  have h: "Seal sample_gcm (replicate 32 7) (take 12 [1, 2, 3, 4, 5, 6, 7, 8, 9, 10, 11, 12]) [65, 66, 67] \<noteq> None"
    by (simp add: sample_gcm_def)
  have l: "length (replicate 32 (7::byte)) = 32" "12 \<le> length [1, 2, 3, 4, 5, 6, 7, 8, 9, 10, 11, 12 :: byte]"
    by simp_all
  show ?thesis
    using encrypt_decrypt_round_trip[OF gcm_contract_sample l h] gcm_contract_sample h l
    by (intro conjI)
qed

text \<open>
  Claim C4.  For every key, valid or not, and every AEAD, \<^verbatim>\<open>DecryptData\<close> of an
  envelope shorter than 12 bytes fails with the error "encrypted data too short" (the
  specification's \<open>MalformedEnvelope\<close>); since this holds whatever the AEAD is, the AEAD is
  not consulted.  For an envelope of 12 bytes or more, the first 12 bytes are the nonce and
  the rest is the ciphertext with its tag, handed to \<^verbatim>\<open>Open\<close> once the key has been
  accepted.
\<close>

theorem decrypt_envelope_split:
  "(length env < 12 \<longrightarrow> DecryptData g env key = Inl EncryptedDataTooShort)
   \<and> (12 \<le> length env \<longrightarrow>
        length (take 12 env) = 12 \<and> take 12 env @ drop 12 env = env \<and>
        DecryptData g env key =
          (case aes_NewCipher key of
             Inl err \<Rightarrow> Inl err
           | Inr block \<Rightarrow>
               (case Open g block (take 12 env) (drop 12 env) of
                  None \<Rightarrow> Inl AuthenticationFailed
                | Some plaintext \<Rightarrow> Inr plaintext)))"
  by (simp add: DecryptData_def Let_def split: sum.splits)

text \<open>
  An envelope of 11 bytes under a valid and under an empty key, and an envelope of 12
  bytes, whose empty ciphertext the sample AEAD refuses.
\<close>

theorem decrypt_envelope_split_witness:
  "DecryptData sample_gcm [1, 2, 3, 4, 5, 6, 7, 8, 9, 10, 11] (replicate 32 7) = Inl EncryptedDataTooShort
   \<and> DecryptData sample_gcm [1, 2, 3, 4, 5, 6, 7, 8, 9, 10, 11] [] = Inl EncryptedDataTooShort
   \<and> DecryptData sample_gcm [1, 2, 3, 4, 5, 6, 7, 8, 9, 10, 11, 12] (replicate 32 7) =
       (case Open sample_gcm (replicate 32 7) [1, 2, 3, 4, 5, 6, 7, 8, 9, 10, 11, 12] [] of
          None \<Rightarrow> Inl AuthenticationFailed | Some plaintext \<Rightarrow> Inr plaintext)
   \<and> DecryptData sample_gcm [1, 2, 3, 4, 5, 6, 7, 8, 9, 10, 11, 12] (replicate 32 7) = Inl AuthenticationFailed"
proof -
  let ?short = "[1, 2, 3, 4, 5, 6, 7, 8, 9, 10, 11 :: byte]"
  let ?env = "[1, 2, 3, 4, 5, 6, 7, 8, 9, 10, 11, 12 :: byte]"
  have s: "length ?short < 12" by simp
  have e: "12 \<le> length ?env" by simp
  have k: "aes_NewCipher (replicate 32 7) = Inr (replicate 32 7)" by (simp add: aes_NewCipher_def)
  have o: "Open sample_gcm (replicate 32 7) ?env [] = None" by (simp add: sample_gcm_def)
  have 1: "DecryptData sample_gcm ?short (replicate 32 7) = Inl EncryptedDataTooShort"
    using decrypt_envelope_split[of ?short sample_gcm "replicate 32 7"] s by blast
  have 2: "DecryptData sample_gcm ?short [] = Inl EncryptedDataTooShort"
    using decrypt_envelope_split[of ?short sample_gcm "[]"] s by blast
  have 3: "DecryptData sample_gcm ?env (replicate 32 7) =
       (case Open sample_gcm (replicate 32 7) ?env [] of
          None \<Rightarrow> Inl AuthenticationFailed | Some plaintext \<Rightarrow> Inr plaintext)"
    using decrypt_envelope_split[of ?env sample_gcm "replicate 32 7"] e k by simp
  show ?thesis using 1 2 3 o by simp
qed

text \<open>
  Claim C9.  For every plaintext \<open>p\<close> that \<^verbatim>\<open>Seal\<close> accepts and every 32-byte key,
  \<^verbatim>\<open>EncryptData\<close> returns the 12-byte nonce followed by the sealed message, which is the
  ciphertext and the 16-byte tag: \<open>length p + 28\<close> bytes in all.  Consequently every envelope
  that \<^verbatim>\<open>DecryptData\<close> accepts, under any key, has at least 28 bytes.  The lengths of
  ciphertext and tag are those of the contract of GCM.
\<close>

theorem envelope_length:
  "(gcm_contract g \<and> length key = 32 \<and> 12 \<le> length rnd \<and> Seal g key (take 12 rnd) p \<noteq> None \<longrightarrow>
      (\<exists>c. Seal g key (take 12 rnd) p = Some c \<and> length c = length p + 16
          \<and> EncryptData g rnd p key = Inr (take 12 rnd @ c)
          \<and> length (take 12 rnd) = 12
          \<and> length (take 12 rnd @ c) = length p + 28))
   \<and> (gcm_contract g \<and> DecryptData g env key' = Inr p' \<longrightarrow> length env = length p' + 28 \<and> 28 \<le> length env)"
proof -
  have 1: "\<exists>c. Seal g key (take 12 rnd) p = Some c \<and> length c = length p + 16
          \<and> EncryptData g rnd p key = Inr (take 12 rnd @ c)
          \<and> length (take 12 rnd) = 12
          \<and> length (take 12 rnd @ c) = length p + 28"
    if a: "gcm_contract g" "length key = 32" "12 \<le> length rnd" "Seal g key (take 12 rnd) p \<noteq> None"
  proof -
    obtain c where c: "Seal g key (take 12 rnd) p = Some c" using a(4) by auto
    have l: "length c = length p + 16" using gcm_contract_Seal[OF a(1) c] by simp
    show ?thesis using c l EncryptData_returns[OF a(2,3) c] a(3) by simp
  qed
  have 2: "length env = length p' + 28 \<and> 28 \<le> length env"
    if b: "gcm_contract g" "DecryptData g env key' = Inr p'"
  proof -
    have long: "12 \<le> length env" using b(2) by (auto simp: DecryptData_def split: if_splits)
    then obtain block where "Open g block (take 12 env) (drop 12 env) = Some p'"
      using b(2) by (auto simp: DecryptData_def Let_def split: sum.splits option.splits)
    then have "length (drop 12 env) = length p' + 16" using gcm_contract_Open[OF b(1)] by blast
    then show ?thesis using long by simp linarith
  qed
  show ?thesis using 1 2 by blast
qed

text \<open>
  The envelope of the plaintext \<open>[65, 66, 67]\<close> with the sample AEAD has 31 bytes.
\<close>

theorem envelope_length_witness:
  "EncryptData sample_gcm [1, 2, 3, 4, 5, 6, 7, 8, 9, 10, 11, 12] [65, 66, 67] (replicate 32 7) =
     Inr ([1, 2, 3, 4, 5, 6, 7, 8, 9, 10, 11, 12] @ [66, 67, 68] @ replicate 16 7)
   \<and> length ([1, 2, 3, 4, 5, 6, 7, 8, 9, 10, 11, 12] @ [66, 67, 68] @ replicate 16 (7::byte)) = length [65, 66, 67 :: byte] + 28
   \<and> (\<exists>c. EncryptData sample_gcm [1, 2, 3, 4, 5, 6, 7, 8, 9, 10, 11, 12] [65, 66, 67] (replicate 32 7) =
            Inr (take 12 [1, 2, 3, 4, 5, 6, 7, 8, 9, 10, 11, 12] @ c) \<and> length c = length [65, 66, 67 :: byte] + 16)
   \<and> 28 \<le> length ([1, 2, 3, 4, 5, 6, 7, 8, 9, 10, 11, 12] @ [66, 67, 68] @ replicate 16 (7::byte))"
proof -
  let ?rnd = "[1, 2, 3, 4, 5, 6, 7, 8, 9, 10, 11, 12 :: byte]"
  let ?env = "?rnd @ [66, 67, 68] @ replicate 16 (7::byte)"
  have h: "gcm_contract sample_gcm \<and> length (replicate 32 (7::byte)) = 32 \<and> 12 \<le> length ?rnd
      \<and> Seal sample_gcm (replicate 32 7) (take 12 ?rnd) [65, 66, 67] \<noteq> None"
    using gcm_contract_sample by (simp add: sample_gcm_def)
  have e: "EncryptData sample_gcm ?rnd [65, 66, 67] (replicate 32 7) = Inr ?env"
    by (simp add: EncryptData_def aes_NewCipher_def sample_gcm_def sample_tag_def)
  have d: "DecryptData sample_gcm ?env (replicate 32 7) = Inr [65, 66, 67]"
    by (simp add: DecryptData_def aes_NewCipher_def sample_gcm_def sample_tag_def)
  note t = envelope_length[of sample_gcm "replicate 32 7" ?rnd "[65, 66, 67]" ?env "replicate 32 7" "[65, 66, 67]"]
  have a: "\<exists>c. EncryptData sample_gcm ?rnd [65, 66, 67] (replicate 32 7) = Inr (take 12 ?rnd @ c)
      \<and> length c = length [65, 66, 67 :: byte] + 16"
    using mp[OF conjunct1[OF t] h] by blast
  have b: "length ?env = length [65, 66, 67 :: byte] + 28 \<and> 28 \<le> length ?env"
    using mp[OF conjunct2[OF t]] gcm_contract_sample d by blast
  show ?thesis using e a b by (intro conjI) auto
qed

section \<open>Claims about the manifest\<close>

lemma DecodeRune_size_le: "DecodeRune_size s \<le> length s"
  by (cases s) (auto simp: Let_def split: list.splits)

lemma DecodeRune_size_prefix:
  "DecodeRune_size s = n \<Longrightarrow> 0 < n \<Longrightarrow> DecodeRune_size (take n s @ t) = n"
  by (cases s) (auto simp: Let_def split: list.splits if_splits)

lemma DecodeRune_size_RuneError: "DecodeRune_size (RuneError @ t) = 3"
  by (simp add: RuneError_def in_range_def)

lemma coerce_utf8_Nil: "coerce_utf8 [] = []"
  by (simp add: coerce_utf8.simps)

lemma coerce_utf8_prefix:
  assumes "DecodeRune_size s = n" "0 < n"
  shows "coerce_utf8 (take n s @ t) = take n s @ coerce_utf8 t"
proof -
  have l: "n \<le> length s" using assms(1) DecodeRune_size_le[of s] by simp
  have ne: "s \<noteq> []" using assms(2) l by auto
  show ?thesis
    using DecodeRune_size_prefix[OF assms, of t] assms(2) l ne
    by (subst coerce_utf8.simps) simp
qed

lemma coerce_utf8_RuneError: "coerce_utf8 (RuneError @ t) = RuneError @ coerce_utf8 t"
  by (subst coerce_utf8.simps) (simp add: DecodeRune_size_RuneError, simp add: RuneError_def)

lemma coerce_utf8_idem: "coerce_utf8 (coerce_utf8 s) = coerce_utf8 s"
proof (induction s rule: coerce_utf8.induct)
  case (1 s)
  show ?case
  proof (cases "s = []")
    case True
    then show ?thesis by (simp add: coerce_utf8.simps)
  next
    case ne: False
    show ?thesis
    proof (cases "DecodeRune_size s = 0")
      case True
      then have "coerce_utf8 s = RuneError @ coerce_utf8 (tl s)"
        using ne by (subst coerce_utf8.simps) simp
      then show ?thesis using 1(1)[OF ne True] by (simp add: coerce_utf8_RuneError)
    next
      case False
      then have e: "coerce_utf8 s = take (DecodeRune_size s) s @ coerce_utf8 (drop (DecodeRune_size s) s)"
        using ne by (subst coerce_utf8.simps) simp
      show ?thesis
        using 1(2)[OF ne False] False
        by (simp add: e coerce_utf8_prefix[OF refl])
    qed
  qed
qed

lemma coerce_utf8_tags:
  "coerce_utf8 ''filename'' = ''filename''"
  "coerce_utf8 ''encrypted'' = ''encrypted''"
  "coerce_utf8 ''key'' = ''key''"
  "coerce_utf8 ''chunked'' = ''chunked''"
  "coerce_utf8 ''file_id'' = ''file_id''"
  "coerce_utf8 ''chunk_ids'' = ''chunk_ids''"
  "coerce_utf8 ''chunk_hashes'' = ''chunk_hashes''"
  "coerce_utf8 ''file_hash'' = ''file_hash''"
  by (simp_all add: coerce_utf8.simps)

lemma foldName_tags:
  "foldName ''filename'' = ''FILENAME''"
  "foldName ''encrypted'' = ''ENCRYPTED''"
  "foldName ''key'' = ''KEY''"
  "foldName ''chunked'' = ''CHUNKED''"
  "foldName ''file_id'' = ''FILE_ID''"
  "foldName ''chunk_ids'' = ''CHUNK_IDS''"
  "foldName ''chunk_hashes'' = ''CHUNK_HASHES''"
  "foldName ''file_hash'' = ''FILE_HASH''"
  by (simp_all add: foldName.simps to_upper_def in_range_def)

lemma unmarshal_entries_strings:
  "unmarshal_entries name (map (\<lambda>(k, v). (coerce_utf8 k, JString (coerce_utf8 v))) xs) m =
     Inr (AList.updates (map (\<lambda>(k, v). coerce_utf8 k) xs) (map (\<lambda>(k, v). coerce_utf8 v) xs) m)"
  by (induction xs arbitrary: m) (auto simp: case_prod_unfold coerce_utf8_idem)

lemma map_fst_sort_key: "map fst (sort_key fst xs) = sort (map fst xs)"
  by (rule sort_map_sort_key[symmetric])

lemma map_of_sort_key:
  assumes "distinct (map fst m)"
  shows "map_of (sort_key fst m) = map_of m"
proof -
  have "distinct (map fst (sort_key fst m))" using assms by (simp add: map_fst_sort_key)
  then show ?thesis using assms by (simp add: map_of_inject_set)
qed

lemma reread_map_valid:
  assumes "distinct (map fst (entries mo))" "valid_entries (entries mo)"
  shows "reread_map mo = canonical_map mo"
proof -
  let ?xs = "sort_key fst (entries mo)"
  have v: "\<forall>e\<in>set ?xs. coerce_utf8 (fst e) = fst e \<and> coerce_utf8 (snd e) = snd e"
    using assms(2) by (auto simp: valid_entries_def list_all_iff valid_utf8_def)
  have k: "map (\<lambda>(k, v). coerce_utf8 k) ?xs = map fst ?xs"
    using v by (intro map_cong) (auto simp: case_prod_unfold)
  have w: "map (\<lambda>(k, v). coerce_utf8 v) ?xs = map snd ?xs"
    using v by (intro map_cong) (auto simp: case_prod_unfold)
  have d: "distinct (map fst ?xs)" using assms(1) by (simp add: map_fst_sort_key)
  have "AList.updates (map fst ?xs) (map snd ?xs) [] = zip (map fst ?xs) (map snd ?xs)"
    using d by (simp add: updates_fresh)
  also have "\<dots> = ?xs" by (simp add: zip_map_fst_snd)
  finally show ?thesis unfolding reread_map_def canonical_map_def k w by simp
qed

lemma unmarshal_members_append:
  "unmarshal_members (xs @ ys) md =
     (case unmarshal_members xs md of Inl err \<Rightarrow> Inl err | Inr md' \<Rightarrow> unmarshal_members ys md')"
  by (induction xs arbitrary: md) (auto split: sum.splits)

lemma um_key:
  "unmarshal_members (omitempty_string ''key'' s) md =
     Inr (if s = [] then md else md\<lparr>Key := coerce_utf8 s\<rparr>)"
  by (simp add: omitempty_string_def unmarshal_field_def coerce_utf8_tags foldName_tags coerce_utf8_idem)

lemma um_file_id:
  "unmarshal_members (omitempty_string ''file_id'' s) md =
     Inr (if s = [] then md else md\<lparr>FileID := coerce_utf8 s\<rparr>)"
  by (simp add: omitempty_string_def unmarshal_field_def coerce_utf8_tags foldName_tags coerce_utf8_idem)

lemma um_file_hash:
  "unmarshal_members (omitempty_string ''file_hash'' s) md =
     Inr (if s = [] then md else md\<lparr>FileHash := coerce_utf8 s\<rparr>)"
  by (simp add: omitempty_string_def unmarshal_field_def coerce_utf8_tags foldName_tags coerce_utf8_idem)

lemma um_chunk_ids:
  "ChunkIDs md = None \<Longrightarrow>
   unmarshal_members (omitempty_map ''chunk_ids'' mo) md = Inr (md\<lparr>ChunkIDs := reread_map mo\<rparr>)"
  by (simp add: omitempty_map_def unmarshal_field_def coerce_utf8_tags foldName_tags
      marshal_map_def unmarshal_entries_strings reread_map_def entries_def)

lemma um_chunk_hashes:
  "ChunkHashes md = None \<Longrightarrow>
   unmarshal_members (omitempty_map ''chunk_hashes'' mo) md = Inr (md\<lparr>ChunkHashes := reread_map mo\<rparr>)"
  by (simp add: omitempty_map_def unmarshal_field_def coerce_utf8_tags foldName_tags
      marshal_map_def unmarshal_entries_strings reread_map_def entries_def)

lemma um_head:
  "unmarshal_members ((''filename'', JString f) # ms) md =
     unmarshal_members ms (md\<lparr>Filename := coerce_utf8 f\<rparr>)"
  "unmarshal_members ((''encrypted'', JBool e) # ms) md = unmarshal_members ms (md\<lparr>Encrypted := e\<rparr>)"
  "unmarshal_members ((''chunked'', JBool c) # ms) md = unmarshal_members ms (md\<lparr>Chunked := c\<rparr>)"
  by (simp_all add: unmarshal_field_def coerce_utf8_tags foldName_tags)

lemma Unmarshal_Marshal:
  "Unmarshal (Marshal md) =
     Inr \<lparr> Filename = coerce_utf8 (Filename md), Encrypted = Encrypted md,
           Key = coerce_utf8 (Key md), Chunked = Chunked md,
           FileID = coerce_utf8 (FileID md), ChunkIDs = reread_map (ChunkIDs md),
           ChunkHashes = reread_map (ChunkHashes md), FileHash = coerce_utf8 (FileHash md) \<rparr>"
  unfolding Marshal_def Unmarshal.simps
  by (simp add: unmarshal_members_append um_head um_key um_file_id um_file_hash
      um_chunk_ids um_chunk_hashes zero_Metadata_def coerce_utf8_idem coerce_utf8_Nil
      del: unmarshal_members.simps)

lemma Unmarshal_folds_names:
  "Unmarshal (JObject [(''FileName'', JString ''a''), ([CHR 0xE2, CHR 0x84, CHR 0xAA, CHR ''e'', CHR ''y''], JString ''b''),
                       (''other'', JNumber 1)]) =
     Inr (zero_Metadata\<lparr>Filename := ''a'', Key := ''b''\<rparr>)"
  by (simp add: unmarshal_field_def foldName_tags foldName.simps to_upper_def in_range_def
      coerce_utf8.simps zero_Metadata_def)

lemma entries_canonical_map:
  "distinct (map fst (entries mo)) \<Longrightarrow> map_of (entries (canonical_map mo)) = map_of (entries mo)"
  by (simp add: canonical_map_def entries_def map_of_sort_key split: option.splits)

lemma has_field_Marshal:
  "has_field ''key'' (Marshal md) = (Key md \<noteq> [])"
  "has_field ''file_id'' (Marshal md) = (FileID md \<noteq> [])"
  "has_field ''file_hash'' (Marshal md) = (FileHash md \<noteq> [])"
  "has_field ''chunk_ids'' (Marshal md) = (entries (ChunkIDs md) \<noteq> [])"
  "has_field ''chunk_hashes'' (Marshal md) = (entries (ChunkHashes md) \<noteq> [])"
  by (simp_all add: has_field_def Marshal_def omitempty_string_def omitempty_map_def)

text \<open>
  Claim C8, as amended.  Serializing a manifest whose strings, map keys and map values are
  well-formed UTF-8 and deserializing the result yields a manifest with the same scalar
  fields and the same entries in both maps (a map without entries comes back as nil).  For
  every manifest the round trip succeeds and gives back the flags unchanged and every string
  field coerced to UTF-8, each byte that starts no well-formed sequence replaced by U+FFFD.
  A field tagged \<^verbatim>\<open>omitempty\<close> is absent from the serialized form exactly when its value is
  empty, whatever the flags say: \<open>key\<close>, \<open>file_id\<close> and \<open>file_hash\<close> when they are the empty
  string, \<open>chunk_ids\<close> and \<open>chunk_hashes\<close> when they have no entries.  Hence for a manifest
  whose inapplicable fields are empty there is no key field when \<open>encrypted\<close> is false, there
  are no chunk maps when \<open>chunked\<close> is false, and there is no \<open>file_id\<close> or \<open>file_hash\<close> when
  \<open>chunked\<close> is true.
\<close>

theorem manifest_round_trip:
  "(well_formed md \<and> valid_manifest md \<longrightarrow>
      (\<exists>md'. Unmarshal (Marshal md) = Inr md' \<and> same_manifest md md'))
   \<and> (\<exists>md'. Unmarshal (Marshal md) = Inr md'
        \<and> Encrypted md' = Encrypted md \<and> Chunked md' = Chunked md
        \<and> Filename md' = coerce_utf8 (Filename md) \<and> Key md' = coerce_utf8 (Key md)
        \<and> FileID md' = coerce_utf8 (FileID md) \<and> FileHash md' = coerce_utf8 (FileHash md))
   \<and> has_field ''key'' (Marshal md) = (Key md \<noteq> [])
   \<and> has_field ''file_id'' (Marshal md) = (FileID md \<noteq> [])
   \<and> has_field ''file_hash'' (Marshal md) = (FileHash md \<noteq> [])
   \<and> has_field ''chunk_ids'' (Marshal md) = (entries (ChunkIDs md) \<noteq> [])
   \<and> has_field ''chunk_hashes'' (Marshal md) = (entries (ChunkHashes md) \<noteq> [])
   \<and> (only_applicable md \<longrightarrow>
        (\<not> Encrypted md \<longrightarrow> \<not> has_field ''key'' (Marshal md))
        \<and> (\<not> Chunked md \<longrightarrow>
             \<not> has_field ''chunk_ids'' (Marshal md) \<and> \<not> has_field ''chunk_hashes'' (Marshal md))
        \<and> (Chunked md \<longrightarrow>
             \<not> has_field ''file_id'' (Marshal md) \<and> \<not> has_field ''file_hash'' (Marshal md)))"
proof -
  have 1: "well_formed md \<and> valid_manifest md \<longrightarrow>
      (\<exists>md'. Unmarshal (Marshal md) = Inr md' \<and> same_manifest md md')"
  proof
    assume w: "well_formed md \<and> valid_manifest md"
    then have d: "distinct (map fst (entries (ChunkIDs md)))" "distinct (map fst (entries (ChunkHashes md)))"
      by (simp_all add: well_formed_def)
    have v: "valid_entries (entries (ChunkIDs md))" "valid_entries (entries (ChunkHashes md))"
      using w by (simp_all add: valid_manifest_def)
    have s: "coerce_utf8 (Filename md) = Filename md" "coerce_utf8 (Key md) = Key md"
      "coerce_utf8 (FileID md) = FileID md" "coerce_utf8 (FileHash md) = FileHash md"
      using w by (simp_all add: valid_manifest_def valid_utf8_def)
    show "\<exists>md'. Unmarshal (Marshal md) = Inr md' \<and> same_manifest md md'"
      unfolding Unmarshal_Marshal s reread_map_valid[OF d(1) v(1)] reread_map_valid[OF d(2) v(2)]
      by (simp add: same_manifest_def entries_canonical_map[OF d(1)] entries_canonical_map[OF d(2)])
  qed
  have 2: "\<exists>md'. Unmarshal (Marshal md) = Inr md'
        \<and> Encrypted md' = Encrypted md \<and> Chunked md' = Chunked md
        \<and> Filename md' = coerce_utf8 (Filename md) \<and> Key md' = coerce_utf8 (Key md)
        \<and> FileID md' = coerce_utf8 (FileID md) \<and> FileHash md' = coerce_utf8 (FileHash md)"
    unfolding Unmarshal_Marshal by simp
  have 8: "only_applicable md \<longrightarrow>
        (\<not> Encrypted md \<longrightarrow> \<not> has_field ''key'' (Marshal md))
        \<and> (\<not> Chunked md \<longrightarrow>
             \<not> has_field ''chunk_ids'' (Marshal md) \<and> \<not> has_field ''chunk_hashes'' (Marshal md))
        \<and> (Chunked md \<longrightarrow>
             \<not> has_field ''file_id'' (Marshal md) \<and> \<not> has_field ''file_hash'' (Marshal md))"
    by (simp add: has_field_Marshal only_applicable_def)
  show ?thesis by (intro conjI 1 2 8 has_field_Marshal)
qed

text \<open>
  The statement at a chunked manifest with two pieces, and its serialized form.
\<close>

theorem manifest_round_trip_witness:
  "well_formed chunked_manifest \<and> valid_manifest chunked_manifest \<and> only_applicable chunked_manifest
   \<and> (\<exists>md'. Unmarshal (Marshal chunked_manifest) = Inr md' \<and> same_manifest chunked_manifest md')
   \<and> \<not> has_field ''key'' (Marshal chunked_manifest)
   \<and> \<not> has_field ''file_id'' (Marshal chunked_manifest)
   \<and> \<not> has_field ''file_hash'' (Marshal chunked_manifest)
   \<and> has_field ''chunk_ids'' (Marshal chunked_manifest)
   \<and> Marshal chunked_manifest =
       JObject [(''filename'', JString ''a.bin''), (''encrypted'', JBool False), (''chunked'', JBool True),
                (''chunk_ids'', JObject [(''1'', JString ''ref1''), (''2'', JString ''ref2'')]),
                (''chunk_hashes'', JObject [(''1'', JString ''h1''), (''2'', JString ''h2'')])]"
proof -
  have w: "well_formed chunked_manifest" by (simp add: well_formed_def chunked_manifest_def entries_def)
  have v: "valid_manifest chunked_manifest"
    by (simp add: valid_manifest_def valid_entries_def valid_utf8_def chunked_manifest_def entries_def
        coerce_utf8.simps)
  have a: "only_applicable chunked_manifest" by (simp add: only_applicable_def chunked_manifest_def)
  have f: "\<not> Encrypted chunked_manifest" "Chunked chunked_manifest" "entries (ChunkIDs chunked_manifest) \<noteq> []"
    by (simp_all add: chunked_manifest_def entries_def)
  have m: "Marshal chunked_manifest =
       JObject [(''filename'', JString ''a.bin''), (''encrypted'', JBool False), (''chunked'', JBool True),
                (''chunk_ids'', JObject [(''1'', JString ''ref1''), (''2'', JString ''ref2'')]),
                (''chunk_hashes'', JObject [(''1'', JString ''h1''), (''2'', JString ''h2'')])]"
    by (simp add: Marshal_def chunked_manifest_def omitempty_string_def omitempty_map_def entries_def
        marshal_map_def less_eq_char_def coerce_utf8.simps)
  note t = manifest_round_trip[of chunked_manifest]
  show ?thesis using t w v a f m by (intro conjI) blast+
qed

text \<open>
  Claim C8 as stated fails twice over: a manifest value with \<open>encrypted\<close> false and a key that
  is not empty is serialized with its key field, and a manifest whose file name is the byte
  \<open>0xFF\<close> comes back with the three bytes of U+FFFD as its file name.
\<close>

theorem manifest_round_trip_counterexample:
  "\<not> Encrypted stray_key_manifest \<and> has_field ''key'' (Marshal stray_key_manifest)
   \<and> Unmarshal (Marshal invalid_name_manifest) =
       Inr (invalid_name_manifest\<lparr>Filename := [CHR 0xEF, CHR 0xBF, CHR 0xBD]\<rparr>)
   \<and> \<not> same_manifest invalid_name_manifest (invalid_name_manifest\<lparr>Filename := [CHR 0xEF, CHR 0xBF, CHR 0xBD]\<rparr>)"
proof -
  have 1: "\<not> Encrypted stray_key_manifest \<and> has_field ''key'' (Marshal stray_key_manifest)"
    by (simp add: stray_key_manifest_def has_field_def Marshal_def omitempty_string_def
        omitempty_map_def entries_def)
  have 2: "Unmarshal (Marshal invalid_name_manifest) =
       Inr (invalid_name_manifest\<lparr>Filename := [CHR 0xEF, CHR 0xBF, CHR 0xBD]\<rparr>)"
    unfolding Unmarshal_Marshal
    by (simp add: invalid_name_manifest_def coerce_utf8.simps RuneError_def reread_map_def entries_def)
  have 3: "\<not> same_manifest invalid_name_manifest (invalid_name_manifest\<lparr>Filename := [CHR 0xEF, CHR 0xBF, CHR 0xBD]\<rparr>)"
    by (simp add: same_manifest_def invalid_name_manifest_def)
  show ?thesis using 1 2 3 by (intro conjI) simp_all
qed

section \<open>Claims about the download\<close>










end
